theory Spec2Isabelle
  imports Main "HOL-Library.Multiset"
begin

section \<open>The program state of DFA\_Minimization.c\<close>

text \<open>
  The program keeps its automaton in heap cells reached through pointers. A pointer
  is an optional address (\<open>None\<close> is \<open>NULL\<close>); the heap maps an address to the
  \<open>State\<close> stored there, and a freed or never allocated address to \<open>None\<close>.
  Reading through a pointer that is \<open>NULL\<close> or dangling is undefined behaviour in C
  and unspecified here (\<open>deref\<close>); the theorems below assume the graph is well formed,
  so that every pointer read is allocated.

  Field names follow the source, except where a name is taken in Isabelle:
  \<open>next\<close> is \<open>nxt\<close>, a state's \<open>id\<close> is \<open>ident\<close>, a partition's \<open>id\<close> is \<open>pid\<close>.
  An array with its fill count (\<open>allStates\<close> with \<open>nStates\<close>, \<open>partitions\<close> with
  \<open>nPartitions\<close>, \<open>Partition.states\<close> with \<open>count\<close>) is the list of its first
  \<open>count\<close> entries: no loop of the program reads an entry at or beyond the count.
  The boolean array \<open>reachable\<close> is a function of the index. What the program
  writes to standard output is not modelled, except for the final table, which
  \<open>printMinimizedDFA\<close> returns as a list of rows; lines written to standard error
  are collected in \<open>stderr\<close>, without their final newline. The loop at the end of
  \<open>main\<close> that frees the remaining states is left out.
\<close>

type_synonym addr = nat
type_synonym ptr = "addr option"

definition MAX_STATES :: nat where
  "MAX_STATES = 64"

definition ALPHABET_SIZE :: nat where
  "ALPHABET_SIZE = 2"

definition EXIT_FAILURE :: int where
  "EXIT_FAILURE = 1"

record State =
  name :: string
  isFinal :: bool
  nxt :: "ptr list"
  ident :: int
  partitionId :: int

record Partition =
  states :: "ptr list"
  pid :: int
  label :: string

record globals =
  heap :: "addr \<rightharpoonup> State"
  allStates :: "ptr list"
  reachable :: "nat \<Rightarrow> bool"
  partitions :: "Partition list"
  stderr :: "string list"

definition nStates :: "globals \<Rightarrow> nat" where
  "nStates g = length (allStates g)"

definition nPartitions :: "globals \<Rightarrow> nat" where
  "nPartitions g = length (partitions g)"

definition count :: "Partition \<Rightarrow> nat" where
  "count P = length (states P)"

text \<open>The state of the process before \<open>main\<close> runs: static storage is zeroed.\<close>

definition initial_globals :: globals where
  "initial_globals =
     \<lparr>heap = Map.empty, allStates = [], reachable = (\<lambda>_. False), partitions = [],
      stderr = []\<rparr>"

definition rd :: "(addr \<rightharpoonup> State) \<Rightarrow> ptr \<Rightarrow> State" where
  "rd h p = the (h (the p))"

definition deref :: "globals \<Rightarrow> ptr \<Rightarrow> State" where
  "deref g p = rd (heap g) p"

definition wr :: "ptr \<Rightarrow> (State \<Rightarrow> State) \<Rightarrow> (addr \<rightharpoonup> State) \<Rightarrow> (addr \<rightharpoonup> State)" where
  "wr p f h = h(the p \<mapsto> f (rd h p))"

subsection \<open>getStateIndexByPtr\<close>

text \<open>The result \<open>-1\<close> of the source is \<open>None\<close>; an index found is \<open>Some i\<close>.\<close>

fun scan_index :: "ptr list \<Rightarrow> nat \<Rightarrow> ptr \<Rightarrow> nat option" where
  "scan_index [] i s = None"
| "scan_index (x # xs) i s = (if x = s then Some i else scan_index xs (Suc i) s)"

definition getStateIndexByPtr :: "globals \<Rightarrow> ptr \<Rightarrow> nat option" where
  "getStateIndexByPtr g s = (if s = None then None else scan_index (allStates g) 0 s)"

subsection \<open>createState\<close>

text \<open>
  A call either returns the new pointer and the new program state, or ends the
  process through \<open>exit\<close>. The answer of \<open>malloc\<close> is a parameter of the model.
  \<open>snprintf\<close> into \<open>char name[4]\<close> stores at most three characters of the C
  string, which ends at the first NUL of the buffer passed.
\<close>

datatype outcome = Returned ptr globals | Exited int globals

definition c_string :: "string \<Rightarrow> string" where
  "c_string buf = takeWhile (\<lambda>c. c \<noteq> CHR 0x00) buf"

definition createState :: "string \<Rightarrow> bool \<Rightarrow> ptr \<Rightarrow> globals \<Rightarrow> outcome" where
  "createState nm fin malloc_result g =
     (if nStates g \<ge> MAX_STATES
      then Exited EXIT_FAILURE (g\<lparr>stderr := stderr g @ [''Error: MAX_STATES exceeded'']\<rparr>)
      else case malloc_result of
        None \<Rightarrow> Exited EXIT_FAILURE (g\<lparr>stderr := stderr g @ [''malloc for State failed'']\<rparr>)
      | Some a \<Rightarrow>
          Returned (Some a)
            (g\<lparr>heap := (heap g)(a \<mapsto>
                  \<lparr>name = take 3 (c_string nm), isFinal = fin,
                   nxt = replicate ALPHABET_SIZE None,
                   ident = int (nStates g), partitionId = - 1\<rparr>),
               allStates := allStates g @ [Some a]\<rparr>))"

text \<open>The assignment \<open>s->next[sym] = t\<close> of \<open>main\<close>.\<close>

definition set_next :: "ptr \<Rightarrow> nat \<Rightarrow> ptr \<Rightarrow> globals \<Rightarrow> globals" where
  "set_next s sy t g = g\<lparr>heap := wr s (\<lambda>st. st\<lparr>nxt := (nxt st)[sy := t]\<rparr>) (heap g)\<rparr>"

subsection \<open>markReachable\<close>

definition mark_target :: "globals \<Rightarrow> nat \<Rightarrow> (nat \<Rightarrow> bool) \<times> bool \<Rightarrow> nat \<Rightarrow> (nat \<Rightarrow> bool) \<times> bool" where
  "mark_target g i rc sy =
     (case rc of (r, changed) \<Rightarrow>
        (case nxt (deref g (allStates g ! i)) ! sy of
           None \<Rightarrow> (r, changed)
         | Some t \<Rightarrow>
             (case getStateIndexByPtr g (Some t) of
                None \<Rightarrow> (r, changed)
              | Some j \<Rightarrow> if \<not> r j then (r(j := True), True) else (r, changed))))"

definition mark_state :: "globals \<Rightarrow> (nat \<Rightarrow> bool) \<times> bool \<Rightarrow> nat \<Rightarrow> (nat \<Rightarrow> bool) \<times> bool" where
  "mark_state g rc i =
     (if \<not> fst rc i then rc else foldl (mark_target g i) rc [0..<ALPHABET_SIZE])"

definition mark_pass :: "globals \<Rightarrow> (nat \<Rightarrow> bool) \<Rightarrow> (nat \<Rightarrow> bool) \<times> bool" where
  "mark_pass g r = foldl (mark_state g) (r, False) [0..<nStates g]"

definition unmarked :: "globals \<Rightarrow> (nat \<Rightarrow> bool) \<Rightarrow> nat" where
  "unmarked g r = card {i. i < nStates g \<and> \<not> r i}"

definition advance :: "globals \<Rightarrow> (nat \<Rightarrow> bool) \<times> bool \<Rightarrow> (nat \<Rightarrow> bool) \<times> bool \<Rightarrow> bool" where
  "advance g rc rc' \<longleftrightarrow>
     (\<forall>k. fst rc k \<longrightarrow> fst rc' k) \<and>
     (snd rc \<longrightarrow> snd rc') \<and>
     (snd rc' \<and> \<not> snd rc \<longrightarrow> unmarked g (fst rc') < unmarked g (fst rc))"


text \<open>
  One run of the body of \<open>while (changed)\<close> is \<open>mark_pass\<close>. A pass that reports a
  change has marked an index below \<open>nStates\<close> that was not marked before, so the
  number of unmarked indices is a measure for the loop.
\<close>

lemma scan_index_bound: "scan_index xs i s = Some j \<Longrightarrow> i \<le> j \<and> j < i + length xs"
  by (induction xs arbitrary: i) (fastforce split: if_splits)+

lemma getStateIndexByPtr_bound: "getStateIndexByPtr g s = Some j \<Longrightarrow> j < nStates g"
  using scan_index_bound[of "allStates g" 0 s j]
  by (auto simp: getStateIndexByPtr_def nStates_def split: if_splits)

lemma unmarked_mono: "(\<And>k. r k \<Longrightarrow> r' k) \<Longrightarrow> unmarked g r' \<le> unmarked g r"
  unfolding unmarked_def by (rule card_mono) auto

lemma unmarked_less:
  assumes "j < nStates g" "\<not> r j"
  shows "unmarked g (r(j := True)) < unmarked g r"
  unfolding unmarked_def
proof (rule psubset_card_mono)
  show "finite {i. i < nStates g \<and> \<not> r i}" by simp
  show "{i. i < nStates g \<and> \<not> (r(j := True)) i} \<subset> {i. i < nStates g \<and> \<not> r i}"
    using assms by auto
qed

lemma advance_refl: "advance g rc rc"
  by (simp add: advance_def)

lemma advance_trans:
  assumes "advance g a b" "advance g b c"
  shows "advance g a c"
proof -
  have m1: "unmarked g (fst b) \<le> unmarked g (fst a)"
    using assms(1) by (intro unmarked_mono) (simp add: advance_def)
  have m2: "unmarked g (fst c) \<le> unmarked g (fst b)"
    using assms(2) by (intro unmarked_mono) (simp add: advance_def)
  show ?thesis
    using assms m1 m2 unfolding advance_def by (cases "snd b") auto
qed

lemma advance_mark_target: "advance g rc (mark_target g i rc sy)"
proof (cases rc)
  case (Pair r c)
  show ?thesis
    unfolding Pair mark_target_def
    by (auto simp: advance_def split: option.splits
        dest: getStateIndexByPtr_bound intro: unmarked_less)
qed

lemma advance_foldl:
  assumes "\<And>s x. advance g s (f s x)"
  shows "advance g s (foldl f s xs)"
proof (induction xs arbitrary: s)
  case Nil
  show ?case by (simp add: advance_refl)
next
  case (Cons x xs)
  show ?case using advance_trans[OF assms[of s x] Cons[of "f s x"]] by simp
qed

lemma advance_mark_state: "advance g rc (mark_state g rc i)"
  unfolding mark_state_def
  by (simp add: advance_refl advance_foldl advance_mark_target)

lemma advance_mark_pass: "advance g (r, False) (mark_pass g r)"
  unfolding mark_pass_def by (rule advance_foldl) (rule advance_mark_state)

lemma mark_pass_decreases:
  "mark_pass g r = (r', True) \<Longrightarrow> unmarked g r' < unmarked g r"
  using advance_mark_pass[of g r] by (simp add: advance_def)

function mark_loop :: "globals \<Rightarrow> (nat \<Rightarrow> bool) \<Rightarrow> (nat \<Rightarrow> bool)" where
  "mark_loop g r = (case mark_pass g r of (r', changed) \<Rightarrow> if changed then mark_loop g r' else r')"
  by pat_completeness auto
termination
  by (relation "measure (\<lambda>(g, r). unmarked g r)") (auto dest: mark_pass_decreases[OF sym])

lemma mark_loop_if:
  "mark_loop g r =
     (if snd (mark_pass g r) then mark_loop g (fst (mark_pass g r)) else fst (mark_pass g r))"
  by (subst mark_loop.simps) (simp split: prod.splits)

declare mark_loop.simps [simp del]


definition markReachable :: "ptr \<Rightarrow> globals \<Rightarrow> globals" where
  "markReachable startNode g =
     (if startNode = None then g
      else
        let r0 = (\<lambda>i. if i < nStates g then False else reachable g i);
            startIndex =
              (case getStateIndexByPtr g startNode of
                 Some i \<Rightarrow> Some i
               | None \<Rightarrow> if nStates g > 0 \<and> allStates g ! 0 = startNode then Some 0 else None)
        in case startIndex of
             None \<Rightarrow>
               g\<lparr>reachable := r0,
                 stderr := stderr g @
                   [''Error: Start node not found in allStates during markReachable.'']\<rparr>
           | Some i \<Rightarrow> g\<lparr>reachable := mark_loop g (r0(i := True))\<rparr>)"

subsection \<open>removeUnreachable\<close>

text \<open>
  The first loop clears the transitions of marked states into unmarked ones; the
  second compacts \<open>allStates\<close> in place, renumbers the states kept and frees the
  others. \<open>compact_step\<close> carries the array, the heap and \<open>writeIndex\<close>; the entry of a
  freed state becomes \<open>NULL\<close>. The new \<open>nStates\<close> is \<open>writeIndex\<close>, so the new list is
  the prefix of that length.
\<close>

definition clear_target :: "globals \<Rightarrow> nat \<Rightarrow> (addr \<rightharpoonup> State) \<Rightarrow> nat \<Rightarrow> (addr \<rightharpoonup> State)" where
  "clear_target g i h sy =
     (case nxt (rd h (allStates g ! i)) ! sy of
        None \<Rightarrow> h
      | Some t \<Rightarrow>
          (case getStateIndexByPtr g (Some t) of
             None \<Rightarrow> h
           | Some j \<Rightarrow>
               if \<not> reachable g j
               then wr (allStates g ! i) (\<lambda>st. st\<lparr>nxt := (nxt st)[sy := None]\<rparr>) h
               else h))"

definition clear_state :: "globals \<Rightarrow> (addr \<rightharpoonup> State) \<Rightarrow> nat \<Rightarrow> (addr \<rightharpoonup> State)" where
  "clear_state g h i =
     (if reachable g i then foldl (clear_target g i) h [0..<ALPHABET_SIZE] else h)"

definition compact_step ::
  "(nat \<Rightarrow> bool) \<Rightarrow> ptr list \<times> (addr \<rightharpoonup> State) \<times> nat \<Rightarrow> nat \<Rightarrow> ptr list \<times> (addr \<rightharpoonup> State) \<times> nat" where
  "compact_step r st readIndex =
     (case st of (arr, h, writeIndex) \<Rightarrow>
        if r readIndex
        then
          let arr' = (if readIndex \<noteq> writeIndex then arr[writeIndex := arr ! readIndex] else arr)
          in (arr', wr (arr' ! writeIndex) (\<lambda>s. s\<lparr>ident := int writeIndex\<rparr>) h, writeIndex + 1)
        else (arr[readIndex := None], h(the (arr ! readIndex) := None), writeIndex))"

definition removeUnreachable :: "ptr \<Rightarrow> globals \<Rightarrow> globals" where
  "removeUnreachable startNode g0 =
     (let g = markReachable startNode g0;
          h = foldl (clear_state g) (heap g) [0..<nStates g]
      in case foldl (compact_step (reachable g)) (allStates g, h, 0) [0..<nStates g] of
           (arr, h', writeIndex) \<Rightarrow> g\<lparr>heap := h', allStates := take writeIndex arr\<rparr>)"

subsection \<open>initialPartition\<close>

text \<open>
  A label is built by \<open>strcpy\<close> and \<open>strcat\<close> into a buffer of \<open>MAX_LABEL_LEN\<close>
  characters: an opening brace, the names separated by commas, a closing brace.
\<close>

fun label_body :: "(addr \<rightharpoonup> State) \<Rightarrow> ptr list \<Rightarrow> string" where
  "label_body h [] = []"
| "label_body h [s] = name (rd h s)"
| "label_body h (s # t # ss) = name (rd h s) @ '','' @ label_body h (t # ss)"

definition mk_label :: "(addr \<rightharpoonup> State) \<Rightarrow> ptr list \<Rightarrow> string" where
  "mk_label h ss = ''{'' @ label_body h ss @ ''}''"

definition set_pids :: "int \<Rightarrow> ptr list \<Rightarrow> (addr \<rightharpoonup> State) \<Rightarrow> (addr \<rightharpoonup> State)" where
  "set_pids k ss h = foldl (\<lambda>h' s. wr s (\<lambda>st. st\<lparr>partitionId := k\<rparr>) h') h ss"

definition classify ::
  "(addr \<rightharpoonup> State) \<times> ptr list \<times> ptr list \<Rightarrow> ptr \<Rightarrow> (addr \<rightharpoonup> State) \<times> ptr list \<times> ptr list" where
  "classify acc s =
     (case acc of (h, finalP, nonFinalP) \<Rightarrow>
        let h' = wr s (\<lambda>st. st\<lparr>partitionId := - 1\<rparr>) h
        in if isFinal (rd h' s) then (h', finalP @ [s], nonFinalP)
           else (h', finalP, nonFinalP @ [s]))"

definition add_partition :: "ptr list \<Rightarrow> globals \<Rightarrow> globals" where
  "add_partition ss g =
     (if length ss > 0
      then let k = int (nPartitions g); h = set_pids k ss (heap g)
           in g\<lparr>heap := h,
                partitions := partitions g @ [\<lparr>states = ss, pid = k, label = mk_label h ss\<rparr>]\<rparr>
      else g)"

definition initialPartition :: "globals \<Rightarrow> globals" where
  "initialPartition g =
     (case foldl classify (heap g, [], []) (allStates g) of
        (h, finalP, nonFinalP) \<Rightarrow>
          add_partition nonFinalP (add_partition finalP (g\<lparr>heap := h, partitions := []\<rparr>)))"

subsection \<open>refineAllPartitions\<close>

text \<open>
  The signature entry of a state on a symbol is the partition id of its target, or
  \<open>-2\<close> where it has none. \<open>place\<close> is the loop over \<open>k\<close>: the state joins the first
  sub-partition whose first member it cannot be told from, or opens a new one at
  the end. A sub-partition and an entry of \<open>newPartitionsList\<close> are lists of
  states: their \<open>id\<close> and \<open>label\<close> are overwritten before they are read.
\<close>

definition p_id_next :: "globals \<Rightarrow> ptr \<Rightarrow> nat \<Rightarrow> int" where
  "p_id_next g s sy =
     (case nxt (deref g s) ! sy of
        None \<Rightarrow> - 2
      | Some a \<Rightarrow> partitionId (deref g (Some a)))"

definition distinguishable :: "globals \<Rightarrow> ptr \<Rightarrow> ptr \<Rightarrow> bool" where
  "distinguishable g s_j s_k_rep \<longleftrightarrow>
     list_ex (\<lambda>sy. p_id_next g s_j sy \<noteq> p_id_next g s_k_rep sy) [0..<ALPHABET_SIZE]"

fun place :: "globals \<Rightarrow> ptr \<Rightarrow> ptr list list \<Rightarrow> ptr list list" where
  "place g s_j [] = [[s_j]]"
| "place g s_j (sub # subs) =
     (if distinguishable g s_j (hd sub) then sub # place g s_j subs
      else (sub @ [s_j]) # subs)"

fun subPartitions :: "globals \<Rightarrow> ptr list \<Rightarrow> ptr list list" where
  "subPartitions g [] = []"
| "subPartitions g (s # ss) = foldl (\<lambda>subs s_j. place g s_j subs) [[s]] ss"

definition push :: "ptr list list \<Rightarrow> ptr list \<Rightarrow> ptr list list" where
  "push newPartitionsList ss =
     (if length newPartitionsList < MAX_STATES then newPartitionsList @ [ss]
      else newPartitionsList)"

definition refine_partition ::
  "globals \<Rightarrow> ptr list list \<times> bool \<Rightarrow> Partition \<Rightarrow> ptr list list \<times> bool" where
  "refine_partition g acc P =
     (case acc of (newPartitionsList, changedInPass) \<Rightarrow>
        if count P \<le> 1
        then (if count P > 0 then push newPartitionsList (states P) else newPartitionsList,
              changedInPass)
        else
          let subs = subPartitions g (states P)
          in (foldl push newPartitionsList subs, changedInPass \<or> length subs > 1))"

fun relabel :: "nat \<Rightarrow> ptr list list \<Rightarrow> (addr \<rightharpoonup> State) \<Rightarrow> Partition list \<times> (addr \<rightharpoonup> State)" where
  "relabel i [] h = ([], h)"
| "relabel i (ss # rest) h =
     (let h' = set_pids (int i) ss h
      in case relabel (Suc i) rest h' of
           (Ps, h'') \<Rightarrow> (\<lparr>states = ss, pid = int i, label = mk_label h' ss\<rparr> # Ps, h''))"

definition refine_pass :: "globals \<Rightarrow> globals \<times> bool" where
  "refine_pass g =
     (case foldl (refine_partition g) ([], False) (partitions g) of
        (newPartitionsList, changedInPass) \<Rightarrow>
          if changedInPass \<or> length newPartitionsList \<noteq> nPartitions g
          then (case relabel 0 newPartitionsList (heap g) of
                  (Ps, h) \<Rightarrow> (g\<lparr>heap := h, partitions := Ps\<rparr>, changedInPass))
          else (g, False))"

definition slack :: "ptr list list \<Rightarrow> nat" where
  "slack subs = sum_list (map (\<lambda>ss. length ss - 1) subs)"

text \<open>
  The loop over the partitions yields the sub-partitions of all of them in order,
  cut at \<open>MAX_STATES\<close> entries, and reports a change when a partition of more than
  one state gave more than one sub-partition. A pass that reports a change lowers
  the sum over the partitions of \<open>count - 1\<close>, which is the measure of the
  \<open>do ... while (changedInPass)\<close> loop.
\<close>

lemma slack_append: "slack (xs @ ys) = slack xs + slack ys"
  by (simp add: slack_def)

lemma slack_take: "slack (take n xs) \<le> slack xs"
proof -
  have "slack xs = slack (take n xs) + slack (drop n xs)"
    using slack_append[of "take n xs" "drop n xs"] by simp
  then show ?thesis by simp
qed

lemma slack_total:
  "[] \<notin> set subs \<Longrightarrow> slack subs + length subs = sum_list (map length subs)"
proof (induction subs)
  case Nil
  show ?case by (simp add: slack_def)
next
  case (Cons a subs)
  then have "a \<noteq> []" by auto
  then have "length a - 1 + 1 = length a" by (cases a) auto
  with Cons show ?case by (simp add: slack_def)
qed

lemma place_props:
  "[] \<notin> set subs \<Longrightarrow>
   [] \<notin> set (place g s subs) \<and>
   sum_list (map length (place g s subs)) = Suc (sum_list (map length subs)) \<and>
   length subs \<le> length (place g s subs)"
  by (induction subs) auto

lemma foldl_place_props:
  "[] \<notin> set subs \<Longrightarrow>
   [] \<notin> set (foldl (\<lambda>subs s_j. place g s_j subs) subs ss) \<and>
   sum_list (map length (foldl (\<lambda>subs s_j. place g s_j subs) subs ss))
     = sum_list (map length subs) + length ss \<and>
   length subs \<le> length (foldl (\<lambda>subs s_j. place g s_j subs) subs ss)"
proof (induction ss arbitrary: subs)
  case Nil
  then show ?case by simp
next
  case (Cons s ss)
  from place_props[OF Cons.prems, of g s]
  have p: "[] \<notin> set (place g s subs)"
    "sum_list (map length (place g s subs)) = Suc (sum_list (map length subs))"
    "length subs \<le> length (place g s subs)" by auto
  from Cons.IH[OF p(1)] p(2,3) show ?case by auto
qed

lemma subPartitions_props:
  "ss \<noteq> [] \<Longrightarrow>
   [] \<notin> set (subPartitions g ss) \<and>
   sum_list (map length (subPartitions g ss)) = length ss \<and>
   1 \<le> length (subPartitions g ss)"
proof (cases ss)
  case Nil
  assume "ss \<noteq> []" with Nil show ?thesis by simp
next
  case (Cons s rest)
  have "[] \<notin> set [[s]]" by simp
  from foldl_place_props[OF this, of g rest] Cons show ?thesis by auto
qed

lemma slack_subPartitions:
  assumes "ss \<noteq> []"
  shows "slack (subPartitions g ss) + length (subPartitions g ss) = length ss"
  using subPartitions_props[OF assms, of g] slack_total[of "subPartitions g ss"] by simp

lemma foldl_push:
  "length acc \<le> MAX_STATES \<Longrightarrow> foldl push acc subs = take MAX_STATES (acc @ subs)"
proof (induction subs arbitrary: acc)
  case Nil
  then show ?case by simp
next
  case (Cons a subs)
  show ?case
  proof (cases "length acc < MAX_STATES")
    case True
    then have "length (acc @ [a]) \<le> MAX_STATES" by simp
    from Cons.IH[OF this] True show ?thesis by (simp add: push_def)
  next
    case False
    with Cons.prems have e: "length acc = MAX_STATES" by simp
    have p: "push acc a = acc" using False by (simp add: push_def)
    have "foldl push acc subs = take MAX_STATES (acc @ subs)"
      using Cons.IH[of acc] e by simp
    with e p show ?thesis by simp
  qed
qed

lemma take_take_append: "take n (take n xs @ ys) = take n (xs @ ys)"
proof (cases "length xs \<le> n")
  case True
  then show ?thesis by simp
next
  case False
  then show ?thesis by simp
qed

definition blocks :: "globals \<Rightarrow> Partition \<Rightarrow> ptr list list" where
  "blocks g P = (if count P \<le> 1 then (if count P > 0 then [states P] else [])
                 else subPartitions g (states P))"

definition splits :: "globals \<Rightarrow> Partition \<Rightarrow> bool" where
  "splits g P \<longleftrightarrow> count P > 1 \<and> length (subPartitions g (states P)) > 1"

lemma refine_partition_eq:
  assumes "length acc \<le> MAX_STATES"
  shows "refine_partition g (acc, c) P = (take MAX_STATES (acc @ blocks g P), c \<or> splits g P)"
  using assms foldl_push[OF assms, of "blocks g P"] foldl_push[OF assms, of "[states P]"]
  by (auto simp: refine_partition_def blocks_def splits_def Let_def push_def)

lemma foldl_refine_partition:
  assumes "length acc \<le> MAX_STATES"
  shows "foldl (refine_partition g) (acc, c) Ps =
         (take MAX_STATES (acc @ concat (map (blocks g) Ps)), c \<or> (\<exists>P \<in> set Ps. splits g P))"
  using assms
proof (induction Ps arbitrary: acc c)
  case Nil
  then show ?case by simp
next
  case (Cons P Ps)
  have l: "length (take MAX_STATES (acc @ blocks g P)) \<le> MAX_STATES" by simp
  have t: "take MAX_STATES (take MAX_STATES (acc @ blocks g P) @ concat (map (blocks g) Ps))
         = take MAX_STATES (acc @ blocks g P @ concat (map (blocks g) Ps))"
    using take_take_append[of MAX_STATES "acc @ blocks g P" "concat (map (blocks g) Ps)"] by simp
  show ?case
    using Cons.IH[OF l, of "c \<or> splits g P"] refine_partition_eq[OF Cons.prems, of g c P] t
    by auto
qed


lemma slack_concat: "slack (concat xss) = sum_list (map slack xss)"
  by (induction xss) (simp_all add: slack_def)

lemma relabel_states: "map states (fst (relabel i subs h)) = subs"
proof (induction subs arbitrary: i h)
  case Nil
  show ?case by simp
next
  case (Cons a subs)
  show ?case
    using Cons[of "Suc i" "set_pids (int i) a h"]
    by (cases "relabel (Suc i) subs (set_pids (int i) a h)") (simp add: Let_def)
qed

lemma slack_blocks_le: "slack (blocks g P) \<le> count P - 1"
proof (cases "count P \<le> 1")
  case True
  then show ?thesis by (simp add: blocks_def slack_def count_def)
next
  case False
  then have ne: "states P \<noteq> []" by (auto simp: count_def)
  from slack_subPartitions[OF ne, of g] subPartitions_props[OF ne, of g] False
  have "slack (subPartitions g (states P)) \<le> count P - 1"
    unfolding count_def by arith
  with False show ?thesis by (simp add: blocks_def)
qed

lemma slack_blocks_less: "splits g P \<Longrightarrow> slack (blocks g P) < count P - 1"
proof -
  assume s: "splits g P"
  then have ne: "states P \<noteq> []" by (auto simp: count_def splits_def)
  from s have c: "1 < count P" "1 < length (subPartitions g (states P))"
    by (auto simp: splits_def)
  from slack_subPartitions[OF ne, of g] c
  have "slack (subPartitions g (states P)) < count P - 1"
    unfolding count_def by arith
  with c show ?thesis by (simp add: blocks_def)
qed

lemma sum_list_strict:
  fixes f h :: "'a \<Rightarrow> nat"
  assumes "\<And>x. x \<in> set xs \<Longrightarrow> f x \<le> h x" "x \<in> set xs" "f x < h x"
  shows "sum_list (map f xs) < sum_list (map h xs)"
  using assms
proof (induction xs)
  case Nil
  then show ?case by simp
next
  case (Cons a xs)
  have le: "sum_list (map f xs) \<le> sum_list (map h xs)"
    using Cons.prems(1) by (intro sum_list_mono) simp
  show ?case
  proof (cases "x = a")
    case True
    with Cons.prems(3) le show ?thesis by simp
  next
    case False
    with Cons.prems have "x \<in> set xs" by simp
    have "sum_list (map f xs) < sum_list (map h xs)"
      using Cons.prems(1) by (intro Cons.IH[OF _ \<open>x \<in> set xs\<close> Cons.prems(3)]) simp
    with Cons.prems(1)[of a] show ?thesis
      by (simp add: add_le_less_mono)
  qed
qed

definition pass_measure :: "globals \<Rightarrow> nat" where
  "pass_measure g = sum_list (map (\<lambda>P. count P - 1) (partitions g))"

lemma pass_measure_slack: "pass_measure g = slack (map states (partitions g))"
  by (simp add: pass_measure_def slack_def count_def comp_def)

lemma refine_pass_decreases:
  assumes "refine_pass g = (g', True)"
  shows "pass_measure g' < pass_measure g"
proof -
  let ?L = "take MAX_STATES (concat (map (blocks g) (partitions g)))"
  have f: "foldl (refine_partition g) ([], False) (partitions g)
           = (?L, \<exists>P \<in> set (partitions g). splits g P)"
    using foldl_refine_partition[of "[]" g False "partitions g"] by simp
  from assms f have ch: "\<exists>P \<in> set (partitions g). splits g P"
    by (auto simp: refine_pass_def split: if_splits prod.splits)
  from assms f ch have "map states (partitions g') = map states (fst (relabel 0 ?L (heap g)))"
    by (auto simp: refine_pass_def split: if_splits prod.splits)
  then have "pass_measure g' = slack ?L"
    by (simp add: pass_measure_slack relabel_states)
  also have "\<dots> \<le> slack (concat (map (blocks g) (partitions g)))"
    by (rule slack_take)
  also have "\<dots> = sum_list (map (\<lambda>P. slack (blocks g P)) (partitions g))"
    by (simp add: slack_concat comp_def)
  also have "\<dots> < sum_list (map (\<lambda>P. count P - 1) (partitions g))"
  proof -
    from ch obtain P where P: "P \<in> set (partitions g)" "splits g P" by auto
    show ?thesis
      using sum_list_strict[of "partitions g" "\<lambda>P. slack (blocks g P)" "\<lambda>P. count P - 1" P]
        slack_blocks_le[of g] P(1) slack_blocks_less[OF P(2)] by blast
  qed
  finally show ?thesis by (simp add: pass_measure_def)
qed

function refineAllPartitions :: "globals \<Rightarrow> globals" where
  "refineAllPartitions g =
     (case refine_pass g of (g', changedInPass) \<Rightarrow>
        if changedInPass then refineAllPartitions g' else g')"
  by pat_completeness auto
termination
  by (relation "measure pass_measure") (auto dest: refine_pass_decreases[OF sym])

lemma refineAllPartitions_if:
  "refineAllPartitions g =
     (if snd (refine_pass g) then refineAllPartitions (fst (refine_pass g))
      else fst (refine_pass g))"
  by (subst refineAllPartitions.simps) (simp split: prod.splits)

declare refineAllPartitions.simps [simp del]


subsection \<open>printMinimizedDFA and main\<close>

text \<open>
  A row of the table: the partition id (the number after \<open>S\<close>), the label, the
  star of a final state, and for each symbol the id printed after \<open>S\<close>, or \<open>None\<close>
  where the table shows a dash.
\<close>

record Row =
  row_id :: int
  row_label :: string
  row_final :: bool
  row_next :: "int option list"

definition next_label :: "globals \<Rightarrow> ptr \<Rightarrow> nat \<Rightarrow> int option" where
  "next_label g representative sy =
     (case nxt (deref g representative) ! sy of
        None \<Rightarrow> None
      | Some a \<Rightarrow> Some (partitionId (deref g (Some a))))"

definition print_row :: "globals \<Rightarrow> Partition \<Rightarrow> Row" where
  "print_row g currentP =
     (let representative = states currentP ! 0
      in \<lparr>row_id = pid currentP, row_label = label currentP,
          row_final = isFinal (deref g representative),
          row_next = [next_label g representative 0, next_label g representative 1]\<rparr>)"

definition printMinimizedDFA :: "globals \<Rightarrow> Row list" where
  "printMinimizedDFA g = map (print_row g) (filter (\<lambda>P. count P \<noteq> 0) (partitions g))"

text \<open>
  \<open>main\<close> builds example DFA 2; the four answers of \<open>malloc\<close> are parameters.
  \<open>build_dfa2\<close> is the part of \<open>main\<close> up to the last transition assignment,
  \<open>pipeline\<close> the three steps that follow, and \<open>main\<close> returns the exit status with
  the table printed.
\<close>

definition pipeline :: "ptr \<Rightarrow> globals \<Rightarrow> globals" where
  "pipeline initialDFAState g =
     refineAllPartitions (initialPartition (removeUnreachable initialDFAState g))"

definition build_dfa2 :: "ptr \<Rightarrow> ptr \<Rightarrow> ptr \<Rightarrow> ptr \<Rightarrow> outcome" where
  "build_dfa2 m1 m2 m3 m4 =
     (case createState ''q1'' False m1 initial_globals of
        Exited c g \<Rightarrow> Exited c g
      | Returned q1 g1 \<Rightarrow>
     (case createState ''q2'' True m2 g1 of
        Exited c g \<Rightarrow> Exited c g
      | Returned q2 g2 \<Rightarrow>
     (case createState ''q3'' True m3 g2 of
        Exited c g \<Rightarrow> Exited c g
      | Returned q3 g3 \<Rightarrow>
     (case createState ''q4'' False m4 g3 of
        Exited c g \<Rightarrow> Exited c g
      | Returned q4 g4 \<Rightarrow>
          Returned q1
            (set_next q4 1 q3 (set_next q4 0 q2
            (set_next q3 1 q2 (set_next q3 0 q3
            (set_next q2 1 q2 (set_next q2 0 q3
            (set_next q1 1 q3 (set_next q1 0 q2 g4))))))))))))"

definition main :: "ptr \<Rightarrow> ptr \<Rightarrow> ptr \<Rightarrow> ptr \<Rightarrow> int \<times> Row list" where
  "main m1 m2 m3 m4 =
     (case build_dfa2 m1 m2 m3 m4 of
        Exited c g \<Rightarrow> (c, [])
      | Returned initialDFAState g \<Rightarrow> (0, printMinimizedDFA (pipeline initialDFAState g)))"

section \<open>Example DFA 2 of main (scenario A)\<close>

text \<open>
  The graph \<open>main\<close> builds when \<open>malloc\<close> answers with the addresses 101 to 104 for
  \<open>q1\<close> to \<open>q4\<close>, and the program states after each of the three steps.
\<close>

definition dfa2 :: globals where
  "dfa2 = (case build_dfa2 (Some 101) (Some 102) (Some 103) (Some 104) of Returned q g \<Rightarrow> g | Exited c g \<Rightarrow> g)"

lemmas eval_defs = build_dfa2_def createState_def set_next_def wr_def rd_def deref_def
  nStates_def initial_globals_def MAX_STATES_def ALPHABET_SIZE_def c_string_def
  numeral_2_eq_2

lemma dfa2_all: "allStates dfa2 = [Some 101, Some 102, Some 103, Some 104]"
  by (simp add: dfa2_def eval_defs)

lemma dfa2_heap:
  "heap dfa2 101 = Some \<lparr>name = ''q1'', isFinal = False, nxt = [Some 102, Some 103], ident = 0, partitionId = - 1\<rparr>"
  "heap dfa2 102 = Some \<lparr>name = ''q2'', isFinal = True, nxt = [Some 103, Some 102], ident = 1, partitionId = - 1\<rparr>"
  "heap dfa2 103 = Some \<lparr>name = ''q3'', isFinal = True, nxt = [Some 103, Some 102], ident = 2, partitionId = - 1\<rparr>"
  "heap dfa2 104 = Some \<lparr>name = ''q4'', isFinal = False, nxt = [Some 102, Some 103], ident = 3, partitionId = - 1\<rparr>"
  by (simp_all add: dfa2_def eval_defs)

lemma dfa2_idx:
  "getStateIndexByPtr dfa2 (Some 101) = Some 0"
  "getStateIndexByPtr dfa2 (Some 102) = Some 1"
  "getStateIndexByPtr dfa2 (Some 103) = Some 2"
  "getStateIndexByPtr dfa2 (Some 104) = Some 3"
  by (simp_all add: getStateIndexByPtr_def dfa2_all)

lemmas mark_defs = mark_pass_def mark_state_def mark_target_def
      dfa2_idx dfa2_all dfa2_heap deref_def rd_def nStates_def ALPHABET_SIZE_def numeral_2_eq_2

lemma dfa2_mark:
  "reachable (markReachable (Some 101) dfa2) 0"
  "reachable (markReachable (Some 101) dfa2) (Suc 0)"
  "reachable (markReachable (Some 101) dfa2) (Suc (Suc 0))"
  "\<not> reachable (markReachable (Some 101) dfa2) (Suc (Suc (Suc 0)))"
  by (simp_all add: markReachable_def mark_loop_if mark_defs Let_def)

lemma dfa2_mark_others:
  "allStates (markReachable (Some 101) dfa2) = allStates dfa2"
  "heap (markReachable (Some 101) dfa2) = heap dfa2"
  by (simp_all add: markReachable_def Let_def dfa2_idx)


definition pruned2 :: globals where "pruned2 = removeUnreachable (Some 101) dfa2"
definition initial2 :: globals where "initial2 = initialPartition pruned2"
definition final2 :: globals where "final2 = refineAllPartitions initial2"

lemma mark2_idx:
  "getStateIndexByPtr (markReachable (Some 101) dfa2) (Some 101) = Some 0"
  "getStateIndexByPtr (markReachable (Some 101) dfa2) (Some 102) = Some (Suc 0)"
  "getStateIndexByPtr (markReachable (Some 101) dfa2) (Some 103) = Some (Suc (Suc 0))"
  "getStateIndexByPtr (markReachable (Some 101) dfa2) (Some 104) = Some (Suc (Suc (Suc 0)))"
  by (simp_all add: getStateIndexByPtr_def dfa2_mark_others dfa2_all)

lemmas prune_defs = pruned2_def removeUnreachable_def Let_def clear_state_def clear_target_def
  compact_step_def wr_def rd_def dfa2_mark dfa2_mark_others mark2_idx dfa2_all dfa2_heap
  nStates_def ALPHABET_SIZE_def numeral_2_eq_2

lemma pruned2_all: "allStates pruned2 = [Some 101, Some 102, Some 103]"
  by (simp add: prune_defs)

lemma pruned2_heap:
  "heap pruned2 101 = Some \<lparr>name = ''q1'', isFinal = False, nxt = [Some 102, Some 103], ident = 0, partitionId = - 1\<rparr>"
  "heap pruned2 102 = Some \<lparr>name = ''q2'', isFinal = True, nxt = [Some 103, Some 102], ident = 1, partitionId = - 1\<rparr>"
  "heap pruned2 103 = Some \<lparr>name = ''q3'', isFinal = True, nxt = [Some 103, Some 102], ident = 2, partitionId = - 1\<rparr>"
  "heap pruned2 104 = None"
  by (simp_all add: prune_defs)

lemmas init_defs = initial2_def initialPartition_def classify_def add_partition_def set_pids_def
  mk_label_def wr_def rd_def nPartitions_def pruned2_all pruned2_heap Let_def

lemma initial2_partitions:
  "partitions initial2 =
     [\<lparr>states = [Some 102, Some 103], pid = 0, label = ''{q2,q3}''\<rparr>,
      \<lparr>states = [Some 101], pid = 1, label = ''{q1}''\<rparr>]"
  by (simp add: init_defs)

lemma initial2_heap:
  "heap initial2 101 = Some \<lparr>name = ''q1'', isFinal = False, nxt = [Some 102, Some 103], ident = 0, partitionId = 1\<rparr>"
  "heap initial2 102 = Some \<lparr>name = ''q2'', isFinal = True, nxt = [Some 103, Some 102], ident = 1, partitionId = 0\<rparr>"
  "heap initial2 103 = Some \<lparr>name = ''q3'', isFinal = True, nxt = [Some 103, Some 102], ident = 2, partitionId = 0\<rparr>"
  by (simp_all add: init_defs)

lemmas refine_defs = refine_pass_def refine_partition_def push_def count_def
  distinguishable_def p_id_next_def deref_def rd_def initial2_partitions initial2_heap
  nPartitions_def MAX_STATES_def ALPHABET_SIZE_def numeral_2_eq_2 Let_def

lemma initial2_pass: "refine_pass initial2 = (initial2, False)"
  by (simp add: refine_defs)

lemma final2_eq: "final2 = initial2"
  by (simp add: final2_def refineAllPartitions_if initial2_pass)

lemma table2:
  "printMinimizedDFA final2 =
     [\<lparr>row_id = 0, row_label = ''{q2,q3}'', row_final = True, row_next = [Some 0, Some 0]\<rparr>,
      \<lparr>row_id = 1, row_label = ''{q1}'', row_final = False, row_next = [Some 0, Some 0]\<rparr>]"
  by (simp add: final2_eq printMinimizedDFA_def print_row_def next_label_def count_def
      deref_def rd_def initial2_partitions initial2_heap)


lemma build_dfa2_eq:
  "build_dfa2 (Some 101) (Some 102) (Some 103) (Some 104) = Returned (Some 101) dfa2"
  by (simp add: dfa2_def eval_defs)

text \<open>
  Claim C2. On example DFA 2 with start state \<open>q1\<close>, pruning removes \<open>q4\<close> and keeps
  \<open>q1\<close>, \<open>q2\<close>, \<open>q3\<close>; the initial partitions are \<open>{q2,q3}\<close> (accepting) and \<open>{q1}\<close>
  (not accepting); refinement leaves them as they are; and the table has exactly two
  rows: \<open>S0 = {q2,q3}\<close>, accepting, going to \<open>S0\<close> on both symbols, and \<open>S1 = {q1}\<close>,
  not accepting, going to \<open>S0\<close> on both symbols. \<open>main\<close> prints that table and
  returns 0.
\<close>

theorem scenario_A_example_dfa2:
  "build_dfa2 (Some 101) (Some 102) (Some 103) (Some 104) = Returned (Some 101) dfa2 \<and>
   allStates dfa2 = [Some 101, Some 102, Some 103, Some 104] \<and>
   map (\<lambda>a. map_option (\<lambda>s. (name s, isFinal s, nxt s)) (heap dfa2 a)) [101, 102, 103, 104] =
     [Some (''q1'', False, [Some 102, Some 103]), Some (''q2'', True, [Some 103, Some 102]),
      Some (''q3'', True, [Some 103, Some 102]), Some (''q4'', False, [Some 102, Some 103])] \<and>
   allStates (removeUnreachable (Some 101) dfa2) = [Some 101, Some 102, Some 103] \<and>
   heap (removeUnreachable (Some 101) dfa2) 104 = None \<and>
   partitions (initialPartition (removeUnreachable (Some 101) dfa2)) =
     [\<lparr>states = [Some 102, Some 103], pid = 0, label = ''{q2,q3}''\<rparr>,
      \<lparr>states = [Some 101], pid = 1, label = ''{q1}''\<rparr>] \<and>
   partitions (pipeline (Some 101) dfa2) =
     partitions (initialPartition (removeUnreachable (Some 101) dfa2)) \<and>
   printMinimizedDFA (pipeline (Some 101) dfa2) =
     [\<lparr>row_id = 0, row_label = ''{q2,q3}'', row_final = True, row_next = [Some 0, Some 0]\<rparr>,
      \<lparr>row_id = 1, row_label = ''{q1}'', row_final = False, row_next = [Some 0, Some 0]\<rparr>] \<and>
   main (Some 101) (Some 102) (Some 103) (Some 104) =
     (0, [\<lparr>row_id = 0, row_label = ''{q2,q3}'', row_final = True, row_next = [Some 0, Some 0]\<rparr>,
          \<lparr>row_id = 1, row_label = ''{q1}'', row_final = False, row_next = [Some 0, Some 0]\<rparr>])"
proof -
  have p: "pipeline (Some 101) dfa2 = final2"
    by (simp add: pipeline_def final2_def initial2_def pruned2_def)
  have i: "initialPartition pruned2 = initial2"
    by (simp add: initial2_def)
  have r: "removeUnreachable (Some 101) dfa2 = pruned2"
    by (simp add: pruned2_def)
  have m: "main (Some 101) (Some 102) (Some 103) (Some 104) = (0, printMinimizedDFA final2)"
    by (simp add: main_def build_dfa2_eq p)
  show ?thesis
    unfolding p r i m table2
    by (simp add: build_dfa2_eq dfa2_all dfa2_heap pruned2_all pruned2_heap
        initial2_partitions final2_eq)
qed

text \<open>
  A program state in which \<open>MAX_STATES\<close> states have been created, at the addresses
  \<open>0\<close> to \<open>63\<close>.
\<close>

definition full_globals :: globals where
  "full_globals =
     \<lparr>heap = (\<lambda>a. if a < 64
                   then Some \<lparr>name = ''q'', isFinal = False, nxt = [None, None],
                              ident = int a, partitionId = - 1\<rparr>
                   else None),
      allStates = map Some [0..<64], reachable = (\<lambda>_. False), partitions = [],
      stderr = []\<rparr>"

section \<open>Claims about createState\<close>

text \<open>
  Claim C5, as amended. When \<open>nStates\<close> has reached \<open>MAX_STATES\<close>, \<open>createState\<close>
  does not return to its caller: it writes its message to standard error and ends
  the process with \<open>EXIT_FAILURE\<close>. No state is created and the heap, the state
  list and the partitions are as they were.
\<close>

theorem createState_capacity_exits:
  "nStates g \<ge> MAX_STATES \<Longrightarrow>
   createState nm fin m g =
     Exited EXIT_FAILURE (g\<lparr>stderr := stderr g @ [''Error: MAX_STATES exceeded'']\<rparr>)"
  by (simp add: createState_def)

theorem createState_capacity_exits_witness:
  "nStates full_globals \<ge> MAX_STATES \<and>
   createState ''q64'' True (Some 64) full_globals =
     Exited EXIT_FAILURE (full_globals\<lparr>stderr := [''Error: MAX_STATES exceeded'']\<rparr>)"
proof -
  have h: "nStates full_globals \<ge> MAX_STATES"
    by (simp add: nStates_def full_globals_def MAX_STATES_def)
  have e: "stderr full_globals = []"
    by (simp add: full_globals_def)
  show ?thesis
    using h createState_capacity_exits [OF h, of "''q64''" True "Some 64"] e by simp
qed

text \<open>
  Claim C5 as stated asks for an error result handed back to the caller. At the
  65th creation the call is the end of the process instead.
\<close>

theorem createState_capacity_counterexample:
  "createState ''q64'' True (Some 64) full_globals =
     Exited 1 (full_globals\<lparr>stderr := [''Error: MAX_STATES exceeded'']\<rparr>)"
  by (simp add: createState_def nStates_def full_globals_def MAX_STATES_def EXIT_FAILURE_def)

text \<open>
  Claim C10. The name stored by \<open>createState\<close> is the first three characters of
  the name passed (the whole name when it is shorter), so it has at most three
  characters; and two states created from the distinct names \<open>q100\<close> and \<open>q101\<close>
  carry the same stored name.
\<close>

theorem createState_name_truncated:
  "(nStates g < MAX_STATES \<longrightarrow>
      (\<exists>g'. createState nm fin (Some a) g = Returned (Some a) g' \<and>
            name (deref g' (Some a)) = take 3 (c_string nm) \<and>
            length (name (deref g' (Some a))) \<le> 3)) \<and>
   (\<exists>g1 g2. createState ''q100'' False (Some 1) initial_globals = Returned (Some 1) g1 \<and>
            createState ''q101'' False (Some 2) g1 = Returned (Some 2) g2 \<and>
            name (deref g2 (Some 1)) = name (deref g2 (Some 2)))"
proof (intro conjI impI)
  assume "nStates g < MAX_STATES"
  then show "\<exists>g'. createState nm fin (Some a) g = Returned (Some a) g' \<and>
            name (deref g' (Some a)) = take 3 (c_string nm) \<and>
            length (name (deref g' (Some a))) \<le> 3"
    by (simp add: createState_def deref_def rd_def)
next
  show "\<exists>g1 g2. createState ''q100'' False (Some 1) initial_globals = Returned (Some 1) g1 \<and>
            createState ''q101'' False (Some 2) g1 = Returned (Some 2) g2 \<and>
            name (deref g2 (Some 1)) = name (deref g2 (Some 2))"
    by (simp add: createState_def deref_def rd_def nStates_def initial_globals_def
        MAX_STATES_def c_string_def)
qed

theorem createState_name_truncated_witness:
  "nStates initial_globals < MAX_STATES \<and>
   (\<exists>g'. createState ''q100'' True (Some 7) initial_globals = Returned (Some 7) g' \<and>
         name (deref g' (Some 7)) = ''q10'')"
proof -
  have h: "nStates initial_globals < MAX_STATES"
    by (simp add: nStates_def initial_globals_def MAX_STATES_def)
  have c: "take 3 (c_string ''q100'') = ''q10''"
    by (simp add: c_string_def)
  from createState_name_truncated [of initial_globals "''q100''" True 7] h c
  show ?thesis by auto
qed

section \<open>A start state that is not in the graph\<close>

lemma scan_index_absent: "s \<notin> set xs \<Longrightarrow> scan_index xs i s = None"
  by (induction xs arbitrary: i) auto

lemma getStateIndexByPtr_absent: "s \<notin> set (allStates g) \<Longrightarrow> getStateIndexByPtr g s = None"
  by (simp add: getStateIndexByPtr_def scan_index_absent)

text \<open>
  Claim C4, as amended. When the start pointer is not \<open>NULL\<close> and is not in
  \<open>allStates\<close>, \<open>markReachable\<close> writes its message to standard error and returns:
  no error value reaches the caller. The call clears the marks of the \<open>nStates\<close>
  states and leaves the heap, the state list and the partitions as they were.
\<close>

theorem markReachable_start_absent:
  "Some a \<notin> set (allStates g) \<Longrightarrow>
   markReachable (Some a) g =
     g\<lparr>reachable := (\<lambda>i. if i < nStates g then False else reachable g i),
       stderr := stderr g @ [''Error: Start node not found in allStates during markReachable.'']\<rparr>"
proof -
  assume a: "Some a \<notin> set (allStates g)"
  have n: "(nStates g > 0 \<and> allStates g ! 0 = Some a) = False"
    using a by (cases "allStates g") (auto simp: nStates_def)
  show ?thesis
    unfolding markReachable_def Let_def getStateIndexByPtr_absent[OF a] n by simp
qed

theorem markReachable_start_absent_witness:
  "Some 999 \<notin> set (allStates dfa2) \<and>
   allStates (markReachable (Some 999) dfa2) = allStates dfa2 \<and>
   heap (markReachable (Some 999) dfa2) = heap dfa2 \<and>
   stderr (markReachable (Some 999) dfa2) =
     [''Error: Start node not found in allStates during markReachable.'']"
proof -
  have h: "Some 999 \<notin> set (allStates dfa2)" by (simp add: dfa2_all)
  have e: "stderr dfa2 = []" by (simp add: dfa2_def eval_defs)
  show ?thesis
    using h e by (simp add: markReachable_start_absent [OF h])
qed

lemma absent_marks:
  "\<not> reachable (markReachable (Some 999) dfa2) 0"
  "\<not> reachable (markReachable (Some 999) dfa2) (Suc 0)"
  "\<not> reachable (markReachable (Some 999) dfa2) (Suc (Suc 0))"
  "\<not> reachable (markReachable (Some 999) dfa2) (Suc (Suc (Suc 0)))"
  "allStates (markReachable (Some 999) dfa2) = allStates dfa2"
  "heap (markReachable (Some 999) dfa2) = heap dfa2"
  "partitions (markReachable (Some 999) dfa2) = []"
  by (simp_all add: markReachable_def getStateIndexByPtr_def dfa2_all nStates_def Let_def dfa2_def eval_defs)

text \<open>
  Claim C4 as stated: \<open>removeUnreachable\<close> with a start pointer that is not in the
  graph returns no error, frees all four states of example DFA 2 and leaves an empty
  state list, from which the remaining steps produce an empty table.
\<close>

theorem start_absent_counterexample:
  "getStateIndexByPtr dfa2 (Some 999) = None \<and>
   allStates dfa2 = [Some 101, Some 102, Some 103, Some 104] \<and>
   allStates (removeUnreachable (Some 999) dfa2) = [] \<and>
   heap (removeUnreachable (Some 999) dfa2) 101 = None \<and>
   heap (removeUnreachable (Some 999) dfa2) 102 = None \<and>
   heap (removeUnreachable (Some 999) dfa2) 103 = None \<and>
   heap (removeUnreachable (Some 999) dfa2) 104 = None \<and>
   printMinimizedDFA (pipeline (Some 999) dfa2) = []"
proof -
  have a: "allStates (removeUnreachable (Some 999) dfa2) = []"
    by (simp add: removeUnreachable_def Let_def clear_state_def compact_step_def absent_marks
        dfa2_all nStates_def)
  have p: "partitions (removeUnreachable (Some 999) dfa2) = []"
    by (simp add: removeUnreachable_def Let_def absent_marks split: prod.splits)
  have i: "partitions (initialPartition (removeUnreachable (Some 999) dfa2)) = []"
    by (simp add: initialPartition_def a add_partition_def)
  have r: "refine_pass (initialPartition (removeUnreachable (Some 999) dfa2))
           = (initialPartition (removeUnreachable (Some 999) dfa2), False)"
    by (simp add: refine_pass_def i nPartitions_def)
  have t: "printMinimizedDFA (pipeline (Some 999) dfa2) = []"
    by (simp add: pipeline_def refineAllPartitions_if r printMinimizedDFA_def i)
  show ?thesis
    using a t
    by (simp add: getStateIndexByPtr_def dfa2_all removeUnreachable_def Let_def clear_state_def
        compact_step_def absent_marks nStates_def)
qed


section \<open>Reachability pruning\<close>

text \<open>
  A graph is well formed when the state list has no repetition and at most
  \<open>MAX_STATES\<close> entries, every entry points to an allocated state, and every
  transition of a listed state is absent or leads to a listed state. \<open>reach g start\<close>
  holds of the pointers reached from \<open>start\<close> by zero or more transitions.
\<close>

definition wf_graph :: "globals \<Rightarrow> bool" where
  "wf_graph g \<longleftrightarrow>
     distinct (allStates g) \<and> nStates g \<le> MAX_STATES \<and>
     (\<forall>p \<in> set (allStates g). p \<noteq> None \<and> heap g (the p) \<noteq> None \<and>
        (\<forall>sy < ALPHABET_SIZE.
           nxt (deref g p) ! sy = None \<or> nxt (deref g p) ! sy \<in> set (allStates g)))"

inductive reach :: "globals \<Rightarrow> ptr \<Rightarrow> ptr \<Rightarrow> bool" for g :: globals and start :: ptr where
  reach_start: "reach g start start"
| reach_step: "reach g start p \<Longrightarrow> sy < ALPHABET_SIZE \<Longrightarrow> nxt (deref g p) ! sy = Some a
     \<Longrightarrow> reach g start (Some a)"

definition sound_marks :: "globals \<Rightarrow> ptr \<Rightarrow> (nat \<Rightarrow> bool) \<Rightarrow> bool" where
  "sound_marks g start r \<longleftrightarrow> (\<forall>i < nStates g. r i \<longrightarrow> reach g start (allStates g ! i))"

definition closed_at :: "globals \<Rightarrow> (nat \<Rightarrow> bool) \<Rightarrow> nat \<Rightarrow> nat \<Rightarrow> bool" where
  "closed_at g r i sy \<longleftrightarrow>
     (\<forall>t j. nxt (deref g (allStates g ! i)) ! sy = Some t \<longrightarrow>
            getStateIndexByPtr g (Some t) = Some j \<longrightarrow> r j)"

definition closed_marks :: "globals \<Rightarrow> (nat \<Rightarrow> bool) \<Rightarrow> bool" where
  "closed_marks g r \<longleftrightarrow>
     (\<forall>i < nStates g. r i \<longrightarrow> (\<forall>sy < ALPHABET_SIZE. closed_at g r i sy))"

lemma foldl_invariant:
  assumes "P s" "\<And>s x. x \<in> set xs \<Longrightarrow> P s \<Longrightarrow> P (f s x)"
  shows "P (foldl f s xs)"
  using assms by (induction xs arbitrary: s) auto

lemma scan_index_nth:
  "scan_index xs i s = Some j \<Longrightarrow> i \<le> j \<and> j - i < length xs \<and> xs ! (j - i) = s"
proof (induction xs arbitrary: i)
  case Nil
  then show ?case by simp
next
  case (Cons x xs)
  show ?case
  proof (cases "x = s")
    case True
    with Cons.prems show ?thesis by simp
  next
    case False
    with Cons.prems have "scan_index xs (Suc i) s = Some j" by simp
    from Cons.IH[OF this] have "Suc i \<le> j" "j - Suc i < length xs" "xs ! (j - Suc i) = s"
      by auto
    moreover from \<open>Suc i \<le> j\<close> have "j - i = Suc (j - Suc i)" by simp
    ultimately show ?thesis by simp
  qed
qed

lemma scan_index_distinct:
  "distinct xs \<Longrightarrow> k < length xs \<Longrightarrow> scan_index xs i (xs ! k) = Some (i + k)"
proof (induction xs arbitrary: i k)
  case Nil
  then show ?case by simp
next
  case (Cons x xs)
  show ?case
  proof (cases k)
    case 0
    then show ?thesis by simp
  next
    case (Suc k')
    with Cons.prems have "xs ! k' \<in> set xs" "x \<notin> set xs" by auto
    then have "x \<noteq> xs ! k'" by auto
    with Suc Cons.prems Cons.IH[of k' "Suc i"] show ?thesis by simp
  qed
qed

lemma getStateIndexByPtr_Some:
  "getStateIndexByPtr g s = Some j \<Longrightarrow> j < nStates g \<and> allStates g ! j = s"
  using scan_index_nth[of "allStates g" 0 s j]
  by (auto simp: getStateIndexByPtr_def nStates_def split: if_splits)

lemma getStateIndexByPtr_nth:
  "wf_graph g \<Longrightarrow> k < nStates g \<Longrightarrow> getStateIndexByPtr g (allStates g ! k) = Some k"
  using scan_index_distinct[of "allStates g" k 0] nth_mem[of k "allStates g"]
  by (auto simp: getStateIndexByPtr_def nStates_def wf_graph_def)

lemma getStateIndexByPtr_mem:
  assumes "wf_graph g" "p \<in> set (allStates g)"
  shows "\<exists>k < nStates g. getStateIndexByPtr g p = Some k \<and> allStates g ! k = p"
proof -
  from assms(2) obtain k where "k < length (allStates g)" "allStates g ! k = p"
    by (auto simp: in_set_conv_nth)
  with getStateIndexByPtr_nth[OF assms(1), of k] show ?thesis
    by (auto simp: nStates_def)
qed

subsection \<open>Marks are sound\<close>

lemma sound_mark_target:
  assumes "sound_marks g start r" "r i" "i < nStates g" "sy < ALPHABET_SIZE"
  shows "sound_marks g start (fst (mark_target g i (r, c) sy)) \<and> fst (mark_target g i (r, c) sy) i"
proof -
  have ri: "reach g start (allStates g ! i)"
    using assms by (simp add: sound_marks_def)
  show ?thesis
  proof (cases "nxt (deref g (allStates g ! i)) ! sy")
    case None
    with assms show ?thesis by (simp add: mark_target_def)
  next
    case (Some t)
    note t = this
    show ?thesis
    proof (cases "getStateIndexByPtr g (Some t)")
      case None
      with t assms show ?thesis by (simp add: mark_target_def)
    next
      case (Some j)
      from getStateIndexByPtr_Some[OF Some] have j: "j < nStates g" "allStates g ! j = Some t"
        by auto
      have "reach g start (Some t)"
        by (rule reach_step[OF ri assms(4) t])
      with j assms(1,2) t Some show ?thesis
        by (auto simp: mark_target_def sound_marks_def)
    qed
  qed
qed

lemma sound_mark_state:
  assumes "sound_marks g start (fst rc)" "i < nStates g"
  shows "sound_marks g start (fst (mark_state g rc i))"
proof (cases "fst rc i")
  case False
  with assms show ?thesis by (simp add: mark_state_def)
next
  case True
  have "sound_marks g start (fst (foldl (mark_target g i) rc [0..<ALPHABET_SIZE]))
        \<and> fst (foldl (mark_target g i) rc [0..<ALPHABET_SIZE]) i"
  proof (rule foldl_invariant[where P = "\<lambda>rc. sound_marks g start (fst rc) \<and> fst rc i"])
    show "sound_marks g start (fst rc) \<and> fst rc i" using assms True by simp
  next
    fix s :: "(nat \<Rightarrow> bool) \<times> bool" and x
    assume x: "x \<in> set [0..<ALPHABET_SIZE]" and s: "sound_marks g start (fst s) \<and> fst s i"
    from sound_mark_target[of g start "fst s" i x "snd s"] s x assms(2)
    show "sound_marks g start (fst (mark_target g i s x)) \<and> fst (mark_target g i s x) i"
      by simp
  qed
  with True show ?thesis by (simp add: mark_state_def)
qed

lemma sound_mark_pass:
  assumes "sound_marks g start r"
  shows "sound_marks g start (fst (mark_pass g r))"
  unfolding mark_pass_def
proof (rule foldl_invariant[where P = "\<lambda>rc. sound_marks g start (fst rc)"])
  show "sound_marks g start (fst (r, False))" using assms by simp
next
  fix s :: "(nat \<Rightarrow> bool) \<times> bool" and x
  assume "x \<in> set [0..<nStates g]" "sound_marks g start (fst s)"
  then show "sound_marks g start (fst (mark_state g s x))"
    using sound_mark_state[of g start s x] by simp
qed


subsection \<open>A pass without change leaves closed marks\<close>

lemma advance_snd: "advance g rc rc' \<Longrightarrow> \<not> snd rc' \<Longrightarrow> \<not> snd rc"
  by (auto simp: advance_def)

lemma mark_target_unchanged:
  assumes "\<not> snd (mark_target g i (r, c) sy)"
  shows "mark_target g i (r, c) sy = (r, c) \<and> closed_at g r i sy"
  using assms
  by (auto simp: mark_target_def closed_at_def split: option.splits if_splits)

lemma mark_targets_unchanged:
  "\<not> snd (foldl (mark_target g i) rc sys) \<Longrightarrow>
   foldl (mark_target g i) rc sys = rc \<and> (\<forall>sy \<in> set sys. closed_at g (fst rc) i sy)"
proof (induction sys arbitrary: rc)
  case Nil
  then show ?case by simp
next
  case (Cons sy sys)
  let ?rc1 = "mark_target g i rc sy"
  from Cons.prems have f: "\<not> snd (foldl (mark_target g i) ?rc1 sys)" by simp
  have "advance g ?rc1 (foldl (mark_target g i) ?rc1 sys)"
    by (rule advance_foldl) (rule advance_mark_target)
  from advance_snd[OF this f] have "\<not> snd ?rc1" .
  with mark_target_unchanged[of g i "fst rc" "snd rc" sy]
  have u: "?rc1 = rc" "closed_at g (fst rc) i sy" by auto
  from Cons.IH[of ?rc1] f u show ?case by simp
qed

lemma mark_state_unchanged:
  assumes "\<not> snd (mark_state g rc i)"
  shows "mark_state g rc i = rc \<and>
         (fst rc i \<longrightarrow> (\<forall>sy < ALPHABET_SIZE. closed_at g (fst rc) i sy))"
proof (cases "fst rc i")
  case False
  then show ?thesis by (simp add: mark_state_def)
next
  case True
  with assms have "\<not> snd (foldl (mark_target g i) rc [0..<ALPHABET_SIZE])"
    by (simp add: mark_state_def)
  from mark_targets_unchanged[OF this] True show ?thesis
    by (simp add: mark_state_def)
qed

lemma mark_states_unchanged:
  "\<not> snd (foldl (mark_state g) rc is) \<Longrightarrow>
   foldl (mark_state g) rc is = rc \<and>
   (\<forall>i \<in> set is. fst rc i \<longrightarrow> (\<forall>sy < ALPHABET_SIZE. closed_at g (fst rc) i sy))"
proof (induction "is" arbitrary: rc)
  case Nil
  then show ?case by simp
next
  case (Cons i "is")
  let ?rc1 = "mark_state g rc i"
  from Cons.prems have f: "\<not> snd (foldl (mark_state g) ?rc1 is)" by simp
  have "advance g ?rc1 (foldl (mark_state g) ?rc1 is)"
    by (rule advance_foldl) (rule advance_mark_state)
  from advance_snd[OF this f] have "\<not> snd ?rc1" .
  from mark_state_unchanged[OF this]
  have u: "?rc1 = rc" "fst rc i \<longrightarrow> (\<forall>sy < ALPHABET_SIZE. closed_at g (fst rc) i sy)" by auto
  from Cons.IH[of ?rc1] f u show ?case by simp
qed

lemma mark_pass_unchanged:
  assumes "\<not> snd (mark_pass g r)"
  shows "fst (mark_pass g r) = r \<and> closed_marks g r"
  using mark_states_unchanged[of g "(r, False)" "[0..<nStates g]"] assms
  by (simp add: mark_pass_def closed_marks_def)

lemma mark_pass_mono: "r k \<Longrightarrow> fst (mark_pass g r) k"
  using advance_mark_pass[of g r] by (simp add: advance_def)

lemma mark_loop_correct:
  "sound_marks g start r \<Longrightarrow>
   sound_marks g start (mark_loop g r) \<and> closed_marks g (mark_loop g r) \<and>
   (\<forall>k. r k \<longrightarrow> mark_loop g r k)"
proof (induction g r rule: mark_loop.induct)
  case (1 g r)
  show ?case
  proof (cases "snd (mark_pass g r)")
    case True
    have s: "sound_marks g start (fst (mark_pass g r))"
      by (rule sound_mark_pass[OF "1.prems"])
    have e: "(fst (mark_pass g r), True) = mark_pass g r"
      using True by (cases "mark_pass g r") simp
    from "1.IH"[OF e] s
    have "sound_marks g start (mark_loop g (fst (mark_pass g r))) \<and>
          closed_marks g (mark_loop g (fst (mark_pass g r))) \<and>
          (\<forall>k. fst (mark_pass g r) k \<longrightarrow> mark_loop g (fst (mark_pass g r)) k)"
      by simp
    moreover have "mark_loop g r = mark_loop g (fst (mark_pass g r))"
      using True by (subst mark_loop_if) simp
    ultimately show ?thesis using mark_pass_mono[of r _ g] by auto
  next
    case False
    then have "mark_loop g r = fst (mark_pass g r)"
      by (subst mark_loop_if) simp
    with mark_pass_unchanged[OF False] "1.prems" show ?thesis by simp
  qed
qed

lemma wf_graph_target:
  assumes "wf_graph g" "p \<in> set (allStates g)" "sy < ALPHABET_SIZE"
    "nxt (deref g p) ! sy = Some a"
  shows "Some a \<in> set (allStates g)"
proof -
  from assms(1,2) have "\<forall>sy < ALPHABET_SIZE.
      nxt (deref g p) ! sy = None \<or> nxt (deref g p) ! sy \<in> set (allStates g)"
    unfolding wf_graph_def by blast
  with assms(3,4) show ?thesis by auto
qed

lemma wf_graph_allocated:
  assumes "wf_graph g" "p \<in> set (allStates g)"
  shows "\<exists>a s. p = Some a \<and> heap g a = Some s"
  using assms unfolding wf_graph_def by fastforce

lemma closed_marks_reach:
  assumes wf: "wf_graph g" and cl: "closed_marks g r"
    and st: "\<exists>i < nStates g. allStates g ! i = start \<and> r i"
  shows "reach g start p \<Longrightarrow> \<exists>i < nStates g. allStates g ! i = p \<and> r i"
proof (induction rule: reach.induct)
  case reach_start
  from st show ?case .
next
  case (reach_step p sy a)
  then obtain i where i: "i < nStates g" "allStates g ! i = p" "r i" by auto
  then have pm: "p \<in> set (allStates g)" by (auto simp: nStates_def)
  from wf_graph_target[OF wf pm reach_step.hyps(2,3)] have "Some a \<in> set (allStates g)" .
  from getStateIndexByPtr_mem[OF wf this] obtain j where
    j: "j < nStates g" "getStateIndexByPtr g (Some a) = Some j" "allStates g ! j = Some a"
    by auto
  from cl i reach_step.hyps(2) have "closed_at g r i sy"
    by (simp add: closed_marks_def)
  with i(2) reach_step.hyps(3) j(2) have "r j"
    by (auto simp: closed_at_def)
  with j show ?case by auto
qed

lemma markReachable_frame:
  "heap (markReachable start g) = heap g"
  "allStates (markReachable start g) = allStates g"
  "partitions (markReachable start g) = partitions g"
  "nStates (markReachable start g) = nStates g"
  by (simp_all add: markReachable_def Let_def nStates_def split: option.splits)

lemma markReachable_marks:
  assumes wf: "wf_graph g" and st: "start \<in> set (allStates g)" and i: "i < nStates g"
  shows "reachable (markReachable start g) i \<longleftrightarrow> reach g start (allStates g ! i)"
proof -
  from getStateIndexByPtr_mem[OF wf st] obtain k where
    k: "k < nStates g" "getStateIndexByPtr g start = Some k" "allStates g ! k = start" by auto
  from wf_graph_allocated[OF wf st] obtain a where sn: "start = Some a" by auto
  let ?r0 = "(\<lambda>i. if i < nStates g then False else reachable g i)(k := True)"
  have m: "reachable (markReachable start g) = mark_loop g ?r0"
    using sn k(2) by (simp add: markReachable_def Let_def)
  have s0: "sound_marks g start ?r0"
    using k by (auto simp: sound_marks_def intro: reach_start)
  from mark_loop_correct[OF s0]
  have c: "sound_marks g start (mark_loop g ?r0)" "closed_marks g (mark_loop g ?r0)"
    "mark_loop g ?r0 k" by auto
  show ?thesis
  proof
    assume "reachable (markReachable start g) i"
    with m c(1) i show "reach g start (allStates g ! i)" by (simp add: sound_marks_def)
  next
    assume "reach g start (allStates g ! i)"
    from closed_marks_reach[OF wf c(2) _ this] k(1,3) c(3)
    obtain j where j: "j < nStates g" "allStates g ! j = allStates g ! i" "mark_loop g ?r0 j"
      by auto
    from wf j(1,2) i have "j = i"
      by (auto simp: wf_graph_def nStates_def nth_eq_iff_index_eq)
    with j(3) m show "reachable (markReachable start g) i" by simp
  qed
qed


subsection \<open>removeUnreachable\<close>

lemma clear_target_id:
  assumes "\<And>t j. nxt (rd h (allStates g ! i)) ! sy = Some t \<Longrightarrow>
             getStateIndexByPtr g (Some t) = Some j \<Longrightarrow> reachable g j"
  shows "clear_target g i h sy = h"
  using assms by (auto simp: clear_target_def split: option.splits)

lemma clear_state_id:
  assumes "\<And>sy t j. reachable g i \<Longrightarrow> sy < ALPHABET_SIZE \<Longrightarrow>
             nxt (rd h (allStates g ! i)) ! sy = Some t \<Longrightarrow>
             getStateIndexByPtr g (Some t) = Some j \<Longrightarrow> reachable g j"
  shows "clear_state g h i = h"
proof (cases "reachable g i")
  case False
  then show ?thesis by (simp add: clear_state_def)
next
  case True
  have "foldl (clear_target g i) h [0..<ALPHABET_SIZE] = h"
  proof (rule foldl_invariant[where P = "\<lambda>h'. h' = h"])
    show "h = h" ..
  next
    fix s x assume "x \<in> set [0..<ALPHABET_SIZE]" "s = h"
    then show "clear_target g i s x = h"
      using clear_target_id[of h g i x] assms[OF True, of x] by auto
  qed
  with True show ?thesis by (simp add: clear_state_def)
qed

lemma clear_states_id:
  assumes "\<And>i sy t j. i \<in> set is \<Longrightarrow> reachable g i \<Longrightarrow> sy < ALPHABET_SIZE \<Longrightarrow>
             nxt (rd h (allStates g ! i)) ! sy = Some t \<Longrightarrow>
             getStateIndexByPtr g (Some t) = Some j \<Longrightarrow> reachable g j"
  shows "foldl (clear_state g) h is = h"
proof (rule foldl_invariant[where P = "\<lambda>h'. h' = h"])
  show "h = h" ..
next
  fix s x assume "x \<in> set is" "s = h"
  then show "clear_state g s x = h"
    using clear_state_id[of g x h] assms[of x] by auto
qed

lemma distinct_nth_neq: "distinct A \<Longrightarrow> i < k \<Longrightarrow> k < length A \<Longrightarrow> A ! i \<noteq> A ! k"
  using nth_eq_iff_index_eq[of A i k] by simp

definition rank :: "(nat \<Rightarrow> bool) \<Rightarrow> nat \<Rightarrow> nat" where
  "rank r k = length (filter r [0..<k])"

lemma rank_Suc: "rank r (Suc k) = (if r k then Suc (rank r k) else rank r k)"
  by (simp add: rank_def)

lemma rank_le: "rank r k \<le> k"
  using length_filter_le[of r "[0..<k]"] by (simp add: rank_def)

definition compact_inv ::
  "ptr list \<Rightarrow> (nat \<Rightarrow> bool) \<Rightarrow> (addr \<rightharpoonup> State) \<Rightarrow> nat \<Rightarrow>
   ptr list \<times> (addr \<rightharpoonup> State) \<times> nat \<Rightarrow> bool" where
  "compact_inv A r h k st \<longleftrightarrow>
     (case st of (arr, h', w) \<Rightarrow>
        w = rank r k \<and> length arr = length A \<and>
        take w arr = map ((!) A) (filter r [0..<k]) \<and>
        (\<forall>i. k \<le> i \<longrightarrow> i < length A \<longrightarrow> arr ! i = A ! i) \<and>
        (\<forall>i < k. h' (the (A ! i)) =
            (if r i then Some ((rd h (A ! i))\<lparr>ident := int (rank r i)\<rparr>) else None)) \<and>
        (\<forall>a. Some a \<notin> set (take k A) \<longrightarrow> h' a = h a))"

lemma compact_inv_init: "compact_inv A r h 0 (A, h, 0)"
  by (simp add: compact_inv_def rank_def)

lemma compact_inv_step:
  assumes d: "distinct A" and nn: "None \<notin> set A" and k: "k < length A"
    and inv: "compact_inv A r h k st"
  shows "compact_inv A r h (Suc k) (compact_step r st k)"
proof -
  obtain arr h' w where st: "st = (arr, h', w)" by (cases st) auto
  from inv st have w: "w = rank r k" and la: "length arr = length A"
    and tk: "take w arr = map ((!) A) (filter r [0..<k])"
    and rest: "\<And>i. k \<le> i \<Longrightarrow> i < length A \<Longrightarrow> arr ! i = A ! i"
    and hp: "\<And>i. i < k \<Longrightarrow> h' (the (A ! i)) =
            (if r i then Some ((rd h (A ! i))\<lparr>ident := int (rank r i)\<rparr>) else None)"
    and ho: "\<And>a. Some a \<notin> set (take k A) \<Longrightarrow> h' a = h a"
    by (auto simp: compact_inv_def)
  have wk: "w \<le> k" using w rank_le by simp
  have ak: "arr ! k = A ! k" using rest[of k] k by simp
  obtain a where a: "A ! k = Some a"
    using nn k nth_mem[of k A] by (cases "A ! k") auto
  have fresh: "Some a \<notin> set (take k A)"
  proof
    assume "Some a \<in> set (take k A)"
    then obtain i where "i < k" "A ! i = Some a"
      using k by (auto simp: in_set_conv_nth)
    with distinct_nth_neq[OF d _ k, of i] a show False by simp
  qed
  have other: "\<And>i. i < k \<Longrightarrow> the (A ! i) \<noteq> a"
  proof
    fix i assume i: "i < k" and e: "the (A ! i) = a"
    from nn i k nth_mem[of i A] obtain b where "A ! i = Some b" by (cases "A ! i") auto
    with e a have "A ! i = A ! k" by simp
    with distinct_nth_neq[OF d i k] show False by simp
  qed
  have hk: "h' a = h a" using ho[OF fresh] .
  have tS: "set (take (Suc k) A) = insert (Some a) (set (take k A))"
    using k a by (simp add: take_Suc_conv_app_nth)
  show ?thesis
  proof (cases "r k")
    case True
    define arr1 where "arr1 = (if k \<noteq> w then arr[w := arr ! k] else arr)"
    define h1 where "h1 = wr (arr1 ! w) (\<lambda>s. s\<lparr>ident := int w\<rparr>) h'"
    have step: "compact_step r st k = (arr1, h1, Suc w)"
      using True st by (simp add: compact_step_def Let_def arr1_def h1_def)
    have la1: "length arr1 = length A" using la by (simp add: arr1_def)
    have aw: "arr1 ! w = Some a"
      using ak a wk la k by (auto simp: arr1_def)
    have hh: "h1 = h'(a \<mapsto> (rd h (A ! k))\<lparr>ident := int w\<rparr>)"
      using aw hk a by (simp add: h1_def wr_def rd_def)
    have t1: "take (Suc w) arr1 = map ((!) A) (filter r [0..<k]) @ [A ! k]"
    proof -
      have "w < length arr1" using wk k la1 by simp
      then have "take (Suc w) arr1 = take w arr1 @ [arr1 ! w]"
        by (rule take_Suc_conv_app_nth)
      moreover have "take w arr1 = take w arr" by (simp add: arr1_def)
      ultimately show ?thesis using aw a tk by simp
    qed
    have r1: "\<And>i. Suc k \<le> i \<Longrightarrow> i < length A \<Longrightarrow> arr1 ! i = A ! i"
      using rest wk by (auto simp: arr1_def)
    have h_old: "\<And>i. i < k \<Longrightarrow> h1 (the (A ! i)) = h' (the (A ! i))"
      using other by (simp add: hh)
    have h_new: "h1 (the (A ! k)) = Some ((rd h (A ! k))\<lparr>ident := int (rank r k)\<rparr>)"
      using a w by (simp add: hh)
    have h_out: "\<And>b. Some b \<notin> set (take (Suc k) A) \<Longrightarrow> h1 b = h b"
      using tS ho by (auto simp: hh)
    show ?thesis
      unfolding step compact_inv_def
      using True w la1 t1 r1 hp h_old h_new h_out
      by (auto simp: rank_Suc less_Suc_eq)
  next
    case False
    define arr1 where "arr1 = arr[k := None]"
    define h1 where "h1 = h'(a := None)"
    have step: "compact_step r st k = (arr1, h1, w)"
      using False st ak a by (simp add: compact_step_def arr1_def h1_def)
    have la1: "length arr1 = length A" using la by (simp add: arr1_def)
    have r1: "\<And>i. Suc k \<le> i \<Longrightarrow> i < length A \<Longrightarrow> arr1 ! i = A ! i"
      using rest by (auto simp: arr1_def)
    have t1: "take w arr1 = map ((!) A) (filter r [0..<k])"
      using wk tk by (simp add: arr1_def)
    have h_old: "\<And>i. i < k \<Longrightarrow> h1 (the (A ! i)) = h' (the (A ! i))"
      using other by (simp add: h1_def)
    have h_new: "h1 (the (A ! k)) = None"
      using a by (simp add: h1_def)
    have h_out: "\<And>b. Some b \<notin> set (take (Suc k) A) \<Longrightarrow> h1 b = h b"
      using tS ho by (auto simp: h1_def)
    show ?thesis
      unfolding step compact_inv_def
      using False w la1 t1 r1 hp h_old h_new h_out
      by (auto simp: rank_Suc less_Suc_eq)
  qed
qed

lemma compact_inv_foldl:
  assumes "distinct A" "None \<notin> set A" "k \<le> length A"
  shows "compact_inv A r h k (foldl (compact_step r) (A, h, 0) [0..<k])"
  using assms(3)
proof (induction k)
  case 0
  show ?case by (simp add: compact_inv_init)
next
  case (Suc k)
  then have "compact_inv A r h k (foldl (compact_step r) (A, h, 0) [0..<k])" by simp
  from compact_inv_step[OF assms(1,2) _ this] Suc.prems show ?case by simp
qed

lemma map_nth_filter:
  "map ((!) xs) (filter (\<lambda>i. P (xs ! i)) [0..<length xs]) = filter P xs"
proof (induction xs rule: rev_induct)
  case Nil
  show ?case by simp
next
  case (snoc x xs)
  have f: "filter (\<lambda>i. P ((xs @ [x]) ! i)) [0..<length xs] = filter (\<lambda>i. P (xs ! i)) [0..<length xs]"
    by (rule filter_cong) (auto simp: nth_append)
  have m: "map ((!) (xs @ [x])) (filter (\<lambda>i. P (xs ! i)) [0..<length xs])
         = map ((!) xs) (filter (\<lambda>i. P (xs ! i)) [0..<length xs])"
    by (rule map_cong) (auto simp: nth_append)
  show ?case using snoc f m by simp
qed


lemma filter_upt_nth_rank:
  "j < rank r n \<Longrightarrow> r (filter r [0..<n] ! j) \<and> filter r [0..<n] ! j < n \<and>
     rank r (filter r [0..<n] ! j) = j"
proof (induction n)
  case 0
  then show ?case by (simp add: rank_def)
next
  case (Suc n)
  show ?case
  proof (cases "j < rank r n")
    case True
    then have "filter r [0..<Suc n] ! j = filter r [0..<n] ! j"
      by (simp add: nth_append rank_def)
    with Suc.IH[OF True] show ?thesis by simp
  next
    case False
    with Suc.prems have rn: "r n" and j: "j = rank r n"
      by (auto simp: rank_Suc split: if_splits)
    then have "filter r [0..<Suc n] ! j = n"
      by (simp add: nth_append rank_def)
    with rn j show ?thesis by simp
  qed
qed

lemma getStateIndexByPtr_cong:
  "allStates g = allStates g' \<Longrightarrow> getStateIndexByPtr g s = getStateIndexByPtr g' s"
  by (simp add: getStateIndexByPtr_def)

lemma wf_graph_no_null: "wf_graph g \<Longrightarrow> None \<notin> set (allStates g)"
  unfolding wf_graph_def by blast

lemma removeUnreachable_inv:
  assumes wf: "wf_graph g" and st: "start \<in> set (allStates g)"
  shows "\<exists>arr h' w.
     compact_inv (allStates g) (reachable (markReachable start g)) (heap g) (nStates g) (arr, h', w) \<and>
     removeUnreachable start g =
       (markReachable start g)\<lparr>heap := h', allStates := take w arr\<rparr>"
proof -
  let ?g = "markReachable start g"
  have fr: "heap ?g = heap g" "allStates ?g = allStates g" "nStates ?g = nStates g"
    by (simp_all add: markReachable_frame)
  have cl: "foldl (clear_state ?g) (heap ?g) [0..<nStates ?g] = heap ?g"
  proof (rule clear_states_id)
    fix i sy t j
    assume i: "i \<in> set [0..<nStates ?g]" and ri: "reachable ?g i" and sy: "sy < ALPHABET_SIZE"
      and t: "nxt (rd (heap ?g) (allStates ?g ! i)) ! sy = Some t"
      and j: "getStateIndexByPtr ?g (Some t) = Some j"
    from i fr have i': "i < nStates g" by simp
    from ri markReachable_marks[OF wf st i'] have r1: "reach g start (allStates g ! i)" by simp
    from t fr have t1: "nxt (deref g (allStates g ! i)) ! sy = Some t"
      by (simp add: deref_def)
    have rt: "reach g start (Some t)"
      by (rule reach_step[OF r1 sy t1])
    from j getStateIndexByPtr_cong[OF fr(2), of "Some t"]
    have "getStateIndexByPtr g (Some t) = Some j" by simp
    from getStateIndexByPtr_Some[OF this] have "j < nStates g" "allStates g ! j = Some t"
      by auto
    with rt markReachable_marks[OF wf st, of j] show "reachable ?g j" by simp
  qed
  obtain arr h' w where f:
    "foldl (compact_step (reachable ?g)) (allStates g, heap g, 0) [0..<nStates g] = (arr, h', w)"
    by (cases "foldl (compact_step (reachable ?g)) (allStates g, heap g, 0) [0..<nStates g]") auto
  have inv: "compact_inv (allStates g) (reachable ?g) (heap g) (nStates g) (arr, h', w)"
    using compact_inv_foldl[of "allStates g" "nStates g" "reachable ?g" "heap g"] wf
      wf_graph_no_null[OF wf] f
    by (simp add: wf_graph_def nStates_def)
  have cl': "foldl (clear_state ?g) (heap g) [0..<nStates g] = heap g"
    using cl fr by simp
  have "removeUnreachable start g = ?g\<lparr>heap := h', allStates := take w arr\<rparr>"
    unfolding removeUnreachable_def Let_def fr cl' f by simp
  with inv show ?thesis by blast
qed

lemma removeUnreachable_allStates:
  assumes wf: "wf_graph g" and st: "start \<in> set (allStates g)"
  shows "allStates (removeUnreachable start g) = filter (reach g start) (allStates g)"
proof -
  from removeUnreachable_inv[OF wf st] obtain arr h' w where
    inv: "compact_inv (allStates g) (reachable (markReachable start g)) (heap g) (nStates g) (arr, h', w)"
    and e: "removeUnreachable start g = (markReachable start g)\<lparr>heap := h', allStates := take w arr\<rparr>"
    by blast
  have f: "filter (reachable (markReachable start g)) [0..<nStates g]
        = filter (\<lambda>i. reach g start (allStates g ! i)) [0..<length (allStates g)]"
    unfolding nStates_def
    by (rule filter_cong) (auto simp: markReachable_marks[OF wf st] nStates_def)
  have "take w arr =
      map ((!) (allStates g)) (filter (reachable (markReachable start g)) [0..<nStates g])"
    using inv by (auto simp: compact_inv_def)
  also have "\<dots> = filter (reach g start) (allStates g)"
    unfolding f by (rule map_nth_filter)
  finally show ?thesis using e by simp
qed

lemma removeUnreachable_heap:
  assumes wf: "wf_graph g" and st: "start \<in> set (allStates g)"
  shows "\<And>p. p \<in> set (allStates g) \<Longrightarrow> \<not> reach g start p \<Longrightarrow>
            heap (removeUnreachable start g) (the p) = None"
    and "\<And>j. j < nStates (removeUnreachable start g) \<Longrightarrow>
            heap (removeUnreachable start g) (the (allStates (removeUnreachable start g) ! j)) =
              Some ((deref g (allStates (removeUnreachable start g) ! j))\<lparr>ident := int j\<rparr>)"
    and "\<And>a. Some a \<notin> set (allStates g) \<Longrightarrow> heap (removeUnreachable start g) a = heap g a"
proof -
  let ?r = "reachable (markReachable start g)"
  from removeUnreachable_inv[OF wf st] obtain arr h' w where
    inv: "compact_inv (allStates g) ?r (heap g) (nStates g) (arr, h', w)"
    and e: "removeUnreachable start g = (markReachable start g)\<lparr>heap := h', allStates := take w arr\<rparr>"
    by blast
  from inv have w: "w = rank ?r (nStates g)"
    and tk: "take w arr = map ((!) (allStates g)) (filter ?r [0..<nStates g])"
    and la: "length arr = length (allStates g)"
    and hp: "\<And>i. i < nStates g \<Longrightarrow> h' (the (allStates g ! i)) =
            (if ?r i then Some ((rd (heap g) (allStates g ! i))\<lparr>ident := int (rank ?r i)\<rparr>) else None)"
    and ho: "\<And>a. Some a \<notin> set (allStates g) \<Longrightarrow> h' a = heap g a"
    by (auto simp: compact_inv_def nStates_def)
  {
    fix p assume p: "p \<in> set (allStates g)" and nr: "\<not> reach g start p"
    from p obtain i where i: "i < nStates g" "allStates g ! i = p"
      by (auto simp: in_set_conv_nth nStates_def)
    with nr markReachable_marks[OF wf st i(1)] have "\<not> ?r i" by simp
    with hp[OF i(1)] i(2) e show "heap (removeUnreachable start g) (the p) = None" by simp
  next
    fix j assume "j < nStates (removeUnreachable start g)"
    with e have j: "j < length (take w arr)" by (simp add: nStates_def)
    have "w \<le> length arr" using w la rank_le[of ?r "nStates g"] by (simp add: nStates_def)
    with j have jw: "j < rank ?r (nStates g)" using w by simp
    let ?i = "filter ?r [0..<nStates g] ! j"
    from filter_upt_nth_rank[OF jw] have i: "?r ?i" "?i < nStates g" "rank ?r ?i = j" by auto
    have "take w arr ! j = allStates g ! ?i"
      using tk jw by (simp add: rank_def)
    with e have a: "allStates (removeUnreachable start g) ! j = allStates g ! ?i" by simp
    from hp[OF i(2)] i(1,3) e a
    show "heap (removeUnreachable start g) (the (allStates (removeUnreachable start g) ! j)) =
              Some ((deref g (allStates (removeUnreachable start g) ! j))\<lparr>ident := int j\<rparr>)"
      by (simp add: deref_def)
  next
    fix a assume "Some a \<notin> set (allStates g)"
    from ho[OF this] e show "heap (removeUnreachable start g) a = heap g a" by simp
  }
qed


lemma removeUnreachable_deref:
  assumes wf: "wf_graph g" and st: "start \<in> set (allStates g)"
    and p: "p \<in> set (allStates (removeUnreachable start g))"
  shows "\<exists>j < nStates (removeUnreachable start g).
           allStates (removeUnreachable start g) ! j = p \<and>
           heap (removeUnreachable start g) (the p) = Some ((deref g p)\<lparr>ident := int j\<rparr>) \<and>
           deref (removeUnreachable start g) p = (deref g p)\<lparr>ident := int j\<rparr>"
proof -
  from p obtain j where j: "j < nStates (removeUnreachable start g)"
    "allStates (removeUnreachable start g) ! j = p"
    by (auto simp: in_set_conv_nth nStates_def)
  from removeUnreachable_heap(2)[OF wf st j(1)] j(2)
  have "heap (removeUnreachable start g) (the p) = Some ((deref g p)\<lparr>ident := int j\<rparr>)"
    by simp
  with j show ?thesis by (auto simp: deref_def rd_def)
qed

lemma removeUnreachable_partitions:
  "partitions (removeUnreachable start g) = partitions g"
  by (simp add: removeUnreachable_def Let_def markReachable_frame split: prod.splits)

lemma removeUnreachable_nxt:
  assumes wf: "wf_graph g" and st: "start \<in> set (allStates g)"
    and p: "p \<in> set (allStates (removeUnreachable start g))"
  shows "nxt (deref (removeUnreachable start g) p) = nxt (deref g p)"
    and "isFinal (deref (removeUnreachable start g) p) = isFinal (deref g p)"
    and "name (deref (removeUnreachable start g) p) = name (deref g p)"
  using removeUnreachable_deref[OF wf st p] by auto

lemma removeUnreachable_target:
  assumes wf: "wf_graph g" and st: "start \<in> set (allStates g)"
    and p: "p \<in> set (allStates (removeUnreachable start g))"
    and sy: "sy < ALPHABET_SIZE" and t: "nxt (deref g p) ! sy = Some a"
  shows "Some a \<in> set (allStates (removeUnreachable start g))"
proof -
  from p have pr: "p \<in> set (allStates g)" "reach g start p"
    by (auto simp: removeUnreachable_allStates[OF wf st])
  have "reach g start (Some a)" by (rule reach_step[OF pr(2) sy t])
  moreover have "Some a \<in> set (allStates g)" by (rule wf_graph_target[OF wf pr(1) sy t])
  ultimately show ?thesis by (simp add: removeUnreachable_allStates[OF wf st])
qed

lemma wf_graph_removeUnreachable:
  assumes wf: "wf_graph g" and st: "start \<in> set (allStates g)"
  shows "wf_graph (removeUnreachable start g)"
proof -
  let ?g = "removeUnreachable start g"
  have a: "allStates ?g = filter (reach g start) (allStates g)"
    by (rule removeUnreachable_allStates[OF wf st])
  have d: "distinct (allStates ?g)" using wf by (simp add: a wf_graph_def)
  have n: "nStates ?g \<le> MAX_STATES"
  proof -
    from wf have "length (allStates g) \<le> MAX_STATES" by (simp add: wf_graph_def nStates_def)
    with length_filter_le[of "reach g start" "allStates g"] show ?thesis
      unfolding nStates_def a by linarith
  qed
  have s: "\<forall>p \<in> set (allStates ?g). p \<noteq> None \<and> heap ?g (the p) \<noteq> None \<and>
        (\<forall>sy < ALPHABET_SIZE.
           nxt (deref ?g p) ! sy = None \<or> nxt (deref ?g p) ! sy \<in> set (allStates ?g))"
  proof
    fix p assume p: "p \<in> set (allStates ?g)"
    then have "p \<in> set (allStates g)" by (simp add: a)
    with wf_graph_allocated[OF wf] have pn: "p \<noteq> None" by blast
    from removeUnreachable_deref[OF wf st p] have hp: "heap ?g (the p) \<noteq> None" by auto
    have "\<forall>sy < ALPHABET_SIZE.
           nxt (deref ?g p) ! sy = None \<or> nxt (deref ?g p) ! sy \<in> set (allStates ?g)"
    proof (intro allI impI)
      fix sy assume sy: "sy < ALPHABET_SIZE"
      show "nxt (deref ?g p) ! sy = None \<or> nxt (deref ?g p) ! sy \<in> set (allStates ?g)"
      proof (cases "nxt (deref g p) ! sy")
        case None
        then show ?thesis by (simp add: removeUnreachable_nxt(1)[OF wf st p])
      next
        case (Some t)
        from removeUnreachable_target[OF wf st p sy Some] Some
        show ?thesis by (simp add: removeUnreachable_nxt(1)[OF wf st p])
      qed
    qed
    with pn hp show "p \<noteq> None \<and> heap ?g (the p) \<noteq> None \<and>
        (\<forall>sy < ALPHABET_SIZE.
           nxt (deref ?g p) ! sy = None \<or> nxt (deref ?g p) ! sy \<in> set (allStates ?g))"
      by simp
  qed
  from d n s show ?thesis unfolding wf_graph_def by simp
qed

text \<open>
  Claim C3. For a well-formed graph whose start state is in the state list,
  \<open>removeUnreachable\<close> keeps exactly the states reachable from the start state, in
  their former order; frees every other state of the list; numbers the states kept
  \<open>0, 1, 2, ...\<close> in list order; keeps their names and accepting flags; and leaves
  each transition of a state kept as it was, except that a transition to a removed
  state is \<open>NULL\<close>.
\<close>

theorem removeUnreachable_correct:
  assumes "wf_graph g" and "start \<in> set (allStates g)"
  shows "allStates (removeUnreachable start g) = filter (reach g start) (allStates g) \<and>
    (\<forall>p \<in> set (allStates g). \<not> reach g start p \<longrightarrow>
        heap (removeUnreachable start g) (the p) = None) \<and>
    (\<forall>j < nStates (removeUnreachable start g).
        ident (deref (removeUnreachable start g) (allStates (removeUnreachable start g) ! j)) = int j) \<and>
    (\<forall>p \<in> set (allStates (removeUnreachable start g)).
        name (deref (removeUnreachable start g) p) = name (deref g p) \<and>
        isFinal (deref (removeUnreachable start g) p) = isFinal (deref g p) \<and>
        (\<forall>sy < ALPHABET_SIZE.
           nxt (deref (removeUnreachable start g) p) ! sy =
             (if nxt (deref g p) ! sy \<in> set (allStates g) \<and>
                 nxt (deref g p) ! sy \<notin> set (allStates (removeUnreachable start g))
              then None else nxt (deref g p) ! sy)))"
proof (intro conjI ballI allI impI)
  show "allStates (removeUnreachable start g) = filter (reach g start) (allStates g)"
    by (rule removeUnreachable_allStates[OF assms])
next
  fix p assume "p \<in> set (allStates g)" "\<not> reach g start p"
  then show "heap (removeUnreachable start g) (the p) = None"
    by (rule removeUnreachable_heap(1)[OF assms])
next
  fix j assume "j < nStates (removeUnreachable start g)"
  from removeUnreachable_heap(2)[OF assms this]
  show "ident (deref (removeUnreachable start g) (allStates (removeUnreachable start g) ! j)) = int j"
    by (simp add: deref_def rd_def)
next
  fix p assume p: "p \<in> set (allStates (removeUnreachable start g))"
  show "name (deref (removeUnreachable start g) p) = name (deref g p)"
    by (rule removeUnreachable_nxt(3)[OF assms p])
  show "isFinal (deref (removeUnreachable start g) p) = isFinal (deref g p)"
    by (rule removeUnreachable_nxt(2)[OF assms p])
  fix sy assume sy: "sy < ALPHABET_SIZE"
  show "nxt (deref (removeUnreachable start g) p) ! sy =
             (if nxt (deref g p) ! sy \<in> set (allStates g) \<and>
                 nxt (deref g p) ! sy \<notin> set (allStates (removeUnreachable start g))
              then None else nxt (deref g p) ! sy)"
  proof (cases "nxt (deref g p) ! sy")
    case None
    with wf_graph_no_null[OF assms(1)] show ?thesis
      by (simp add: removeUnreachable_nxt(1)[OF assms p])
  next
    case (Some a)
    from removeUnreachable_target[OF assms p sy Some] Some show ?thesis
      by (simp add: removeUnreachable_nxt(1)[OF assms p])
  qed
qed


lemma all_less_ALPHABET_SIZE: "(\<forall>sy < ALPHABET_SIZE. P sy) \<longleftrightarrow> P 0 \<and> P (Suc 0)"
  by (auto simp: ALPHABET_SIZE_def less_Suc_eq numeral_2_eq_2)

lemma wf_graph_dfa2: "wf_graph dfa2"
  by (simp add: wf_graph_def all_less_ALPHABET_SIZE dfa2_all dfa2_heap deref_def rd_def
      nStates_def MAX_STATES_def)

theorem removeUnreachable_correct_witness:
  "wf_graph dfa2 \<and> Some 101 \<in> set (allStates dfa2) \<and>
   filter (reach dfa2 (Some 101)) (allStates dfa2) = [Some 101, Some 102, Some 103] \<and>
   heap (removeUnreachable (Some 101) dfa2) 104 = None \<and>
   ident (deref (removeUnreachable (Some 101) dfa2) (Some 103)) = 2"
proof -
  have s: "Some 101 \<in> set (allStates dfa2)" by (simp add: dfa2_all)
  from removeUnreachable_correct [OF wf_graph_dfa2 s]
  have "allStates (removeUnreachable (Some 101) dfa2)
        = filter (reach dfa2 (Some 101)) (allStates dfa2)" by blast
  with wf_graph_dfa2 s pruned2_all pruned2_heap show ?thesis
    by (simp add: pruned2_def deref_def rd_def)
qed


section \<open>Partition refinement\<close>

subsection \<open>Writes of partition ids\<close>

lemma rd_wr: "rd (wr q f h) p = (if the p = the q then f (rd h q) else rd h p)"
  by (simp add: rd_def wr_def)

lemma rd_same_addr: "the p = the q \<Longrightarrow> rd h p = rd h q"
  by (simp add: rd_def)

lemma rd_set_pids:
  "rd (set_pids k ss h) p =
     (if the p \<in> the ` set ss then (rd h p)\<lparr>partitionId := k\<rparr> else rd h p)"
  unfolding set_pids_def
proof (induction ss arbitrary: h)
  case Nil
  show ?case by simp
next
  case (Cons s ss)
  show ?case
    using rd_same_addr[of p s h]
    by (simp add: Cons.IH rd_wr)
qed

lemma set_pids_allocated: "h a \<noteq> None \<Longrightarrow> set_pids k ss h a \<noteq> None"
  unfolding set_pids_def
  by (induction ss arbitrary: h) (simp_all add: wr_def)

lemma the_inj_ptr: "p \<noteq> None \<Longrightarrow> q \<noteq> None \<Longrightarrow> the p = the q \<longleftrightarrow> p = q"
  by auto

lemma the_image_ptr:
  "p \<noteq> None \<Longrightarrow> None \<notin> set ss \<Longrightarrow> the p \<in> the ` set ss \<longleftrightarrow> p \<in> set ss"
  by (auto simp: image_iff) (metis option.collapse)

subsection \<open>initialPartition\<close>

lemma classify_step:
  "classify (h, fp, nfp) s =
     (wr s (\<lambda>st. st\<lparr>partitionId := - 1\<rparr>) h,
      if isFinal (rd h s) then fp @ [s] else fp,
      if isFinal (rd h s) then nfp else nfp @ [s])"
  by (simp add: classify_def Let_def rd_def wr_def)

lemma foldl_classify:
  "foldl classify (h, fp, nfp) ss =
     (set_pids (- 1) ss h,
      fp @ filter (\<lambda>p. isFinal (rd h p)) ss,
      nfp @ filter (\<lambda>p. \<not> isFinal (rd h p)) ss)"
proof (induction ss arbitrary: h fp nfp)
  case Nil
  show ?case by (simp add: set_pids_def)
next
  case (Cons s ss)
  let ?h = "wr s (\<lambda>st. st\<lparr>partitionId := - 1\<rparr>) h"
  have f: "\<And>p. isFinal (rd ?h p) = isFinal (rd h p)"
    by (simp add: rd_def wr_def)
  have s: "set_pids (- 1) (s # ss) h = set_pids (- 1) ss ?h"
    by (simp add: set_pids_def)
  show ?case
    by (simp add: classify_step Cons.IH f s)
qed

definition finals :: "globals \<Rightarrow> ptr list" where
  "finals g = filter (\<lambda>p. isFinal (deref g p)) (allStates g)"

definition nonfinals :: "globals \<Rightarrow> ptr list" where
  "nonfinals g = filter (\<lambda>p. \<not> isFinal (deref g p)) (allStates g)"

lemma set_pids_Nil: "set_pids k [] h = h"
  by (simp add: set_pids_def)

lemma add_partition_heap:
  "heap (add_partition ss g) = set_pids (int (nPartitions g)) ss (heap g)"
  by (cases ss) (simp_all add: add_partition_def Let_def set_pids_Nil)

lemma add_partition_states:
  "map states (partitions (add_partition ss g)) =
     map states (partitions g) @ (if ss = [] then [] else [ss])"
  by (cases ss) (simp_all add: add_partition_def Let_def)

lemma add_partition_allStates: "allStates (add_partition ss g) = allStates g"
  by (cases ss) (simp_all add: add_partition_def Let_def)

lemma initialPartition_eq:
  "initialPartition g =
     add_partition (nonfinals g)
       (add_partition (finals g)
          (g\<lparr>heap := set_pids (- 1) (allStates g) (heap g), partitions := []\<rparr>))"
  by (simp add: initialPartition_def foldl_classify finals_def nonfinals_def deref_def)

lemma initialPartition_states:
  "map states (partitions (initialPartition g)) =
     (if finals g = [] then [] else [finals g]) @ (if nonfinals g = [] then [] else [nonfinals g])"
  unfolding initialPartition_eq add_partition_states by simp

lemma initialPartition_heap:
  "heap (initialPartition g) =
     set_pids (if finals g = [] then 0 else 1) (nonfinals g)
       (set_pids 0 (finals g) (set_pids (- 1) (allStates g) (heap g)))"
proof -
  have n: "int (nPartitions (add_partition (finals g)
          (g\<lparr>heap := set_pids (- 1) (allStates g) (heap g), partitions := []\<rparr>)))
        = (if finals g = [] then 0 else 1)"
    using add_partition_states[of "finals g"
        "g\<lparr>heap := set_pids (- 1) (allStates g) (heap g), partitions := []\<rparr>"]
      length_map[of states "partitions (add_partition (finals g)
          (g\<lparr>heap := set_pids (- 1) (allStates g) (heap g), partitions := []\<rparr>))"]
    by (simp add: nPartitions_def split: if_splits)
  show ?thesis
    unfolding initialPartition_eq add_partition_heap n by (simp add: nPartitions_def)
qed

lemma initialPartition_frame:
  "allStates (initialPartition g) = allStates g"
  "nStates (initialPartition g) = nStates g"
  by (simp_all add: initialPartition_eq add_partition_allStates nStates_def)

lemma initialPartition_deref:
  "isFinal (deref (initialPartition g) p) = isFinal (deref g p)"
  "nxt (deref (initialPartition g) p) = nxt (deref g p)"
  "name (deref (initialPartition g) p) = name (deref g p)"
  "ident (deref (initialPartition g) p) = ident (deref g p)"
  by (simp_all add: deref_def initialPartition_heap rd_set_pids)

lemma initialPartition_allocated:
  "heap g a \<noteq> None \<Longrightarrow> heap (initialPartition g) a \<noteq> None"
  by (simp add: initialPartition_heap set_pids_allocated)


subsection \<open>The invariant of the partition list\<close>

definition blocks_of :: "globals \<Rightarrow> ptr list list" where
  "blocks_of g = map states (partitions g)"

definition part_inv :: "globals \<Rightarrow> bool" where
  "part_inv g \<longleftrightarrow>
     wf_graph g \<and> distinct (concat (blocks_of g)) \<and>
     set (concat (blocks_of g)) = set (allStates g) \<and> [] \<notin> set (blocks_of g) \<and>
     (\<forall>i < length (blocks_of g). \<forall>p \<in> set (blocks_of g ! i). partitionId (deref g p) = int i)"

definition homogeneous :: "globals \<Rightarrow> bool" where
  "homogeneous g \<longleftrightarrow>
     (\<forall>B \<in> set (blocks_of g). \<forall>p \<in> set B. \<forall>q \<in> set B.
        isFinal (deref g p) = isFinal (deref g q))"

lemma wf_graph_frame:
  assumes "wf_graph g" "allStates g' = allStates g"
    "\<And>a. heap g a \<noteq> None \<Longrightarrow> heap g' a \<noteq> None"
    "\<And>p. nxt (deref g' p) = nxt (deref g p)"
  shows "wf_graph g'"
  using assms unfolding wf_graph_def nStates_def by simp

lemma wf_graph_initialPartition: "wf_graph g \<Longrightarrow> wf_graph (initialPartition g)"
  by (rule wf_graph_frame[where g = g])
     (simp_all add: initialPartition_frame initialPartition_allocated initialPartition_deref)

lemma finals_nonfinals:
  "set (finals g) \<union> set (nonfinals g) = set (allStates g)"
  "set (finals g) \<inter> set (nonfinals g) = {}"
  "distinct (allStates g) \<Longrightarrow> distinct (finals g @ nonfinals g)"
  by (auto simp: finals_def nonfinals_def)

lemma initialPartition_pid:
  assumes wf: "wf_graph g"
  shows "p \<in> set (finals g) \<Longrightarrow> partitionId (deref (initialPartition g) p) = 0"
    and "p \<in> set (nonfinals g) \<Longrightarrow>
           partitionId (deref (initialPartition g) p) = (if finals g = [] then 0 else 1)"
proof -
  have nn: "None \<notin> set (finals g)" "None \<notin> set (nonfinals g)"
    using wf_graph_no_null[OF wf] by (auto simp: finals_def nonfinals_def)
  {
    assume p: "p \<in> set (finals g)"
    with nn have pn: "p \<noteq> None" by (cases p) auto
    from p finals_nonfinals(2)[of g] have "p \<notin> set (nonfinals g)" by auto
    with the_image_ptr[OF pn nn(2)] have a: "the p \<notin> the ` set (nonfinals g)" by simp
    from p have b: "the p \<in> the ` set (finals g)" by simp
    show "partitionId (deref (initialPartition g) p) = 0"
      by (simp add: deref_def initialPartition_heap rd_set_pids a b)
  next
    assume p: "p \<in> set (nonfinals g)"
    then have b: "the p \<in> the ` set (nonfinals g)" by simp
    show "partitionId (deref (initialPartition g) p) = (if finals g = [] then 0 else 1)"
      by (simp add: deref_def initialPartition_heap rd_set_pids b)
  }
qed

lemma part_inv_initialPartition:
  assumes wf: "wf_graph g"
  shows "part_inv (initialPartition g)"
proof -
  let ?g = "initialPartition g"
  have b: "blocks_of ?g =
     (if finals g = [] then [] else [finals g]) @ (if nonfinals g = [] then [] else [nonfinals g])"
    by (simp add: blocks_of_def initialPartition_states)
  have c: "concat (blocks_of ?g) = finals g @ nonfinals g"
    by (simp add: b)
  have d: "distinct (concat (blocks_of ?g))"
    using wf finals_nonfinals(3)[of g] by (simp add: c wf_graph_def)
  have s: "set (concat (blocks_of ?g)) = set (allStates ?g)"
    using finals_nonfinals(1)[of g] by (simp add: c initialPartition_frame)
  have e: "[] \<notin> set (blocks_of ?g)" by (simp add: b)
  have i: "\<forall>i < length (blocks_of ?g). \<forall>p \<in> set (blocks_of ?g ! i).
             partitionId (deref ?g p) = int i"
  proof (intro allI impI ballI)
    fix i p assume i: "i < length (blocks_of ?g)" and p: "p \<in> set (blocks_of ?g ! i)"
    show "partitionId (deref ?g p) = int i"
    proof (cases "finals g = []")
      case True
      with i p b have "i = 0" "p \<in> set (nonfinals g)" by (auto split: if_splits)
      with initialPartition_pid(2)[OF wf, of p] True show ?thesis by simp
    next
      case False
      show ?thesis
      proof (cases i)
        case 0
        with p b False have "p \<in> set (finals g)" by simp
        with initialPartition_pid(1)[OF wf, of p] 0 show ?thesis by simp
      next
        case (Suc k)
        with i p b False have "i = 1" "p \<in> set (nonfinals g)" by (auto split: if_splits)
        with initialPartition_pid(2)[OF wf, of p] False show ?thesis by simp
      qed
    qed
  qed
  from wf_graph_initialPartition[OF wf] d s e i show ?thesis
    unfolding part_inv_def by simp
qed

lemma homogeneous_initialPartition: "homogeneous (initialPartition g)"
proof -
  have b: "blocks_of (initialPartition g) =
     (if finals g = [] then [] else [finals g]) @ (if nonfinals g = [] then [] else [nonfinals g])"
    by (simp add: blocks_of_def initialPartition_states)
  show ?thesis
    unfolding homogeneous_def b
    by (auto simp: initialPartition_deref finals_def nonfinals_def split: if_splits)
qed


subsection \<open>Sub-partitions group a partition by signature\<close>

lemma distinguishable_iff:
  "distinguishable g p q \<longleftrightarrow> (\<exists>sy < ALPHABET_SIZE. p_id_next g p sy \<noteq> p_id_next g q sy)"
  by (auto simp: distinguishable_def list_ex_iff)

lemma indist_refl: "\<not> distinguishable g p p"
  by (simp add: distinguishable_iff)

lemma indist_sym: "distinguishable g p q \<longleftrightarrow> distinguishable g q p"
  by (auto simp: distinguishable_iff)

lemma indist_trans:
  "\<not> distinguishable g p q \<Longrightarrow> \<not> distinguishable g q r \<Longrightarrow> \<not> distinguishable g p r"
  by (simp add: distinguishable_iff)

definition grouped :: "globals \<Rightarrow> ptr list list \<Rightarrow> bool" where
  "grouped g subs \<longleftrightarrow>
     [] \<notin> set subs \<and>
     (\<forall>B \<in> set subs. \<forall>p \<in> set B. \<not> distinguishable g p (hd B)) \<and>
     sorted_wrt (\<lambda>B B'. distinguishable g (hd B) (hd B')) subs"

lemma mset_concat_place: "mset (concat (place g s subs)) = add_mset s (mset (concat subs))"
  by (induction subs) auto

lemma heads_place: "[] \<notin> set subs \<Longrightarrow> hd ` set (place g s subs) \<subseteq> insert s (hd ` set subs)"
proof (induction subs)
  case Nil
  show ?case by simp
next
  case (Cons B subs)
  then have "B \<noteq> []" by auto
  with Cons show ?case by auto
qed

lemma grouped_place:
  assumes "grouped g subs"
  shows "grouped g (place g s subs)"
  using assms
proof (induction subs)
  case Nil
  show ?case by (simp add: grouped_def indist_refl)
next
  case (Cons B subs)
  from Cons.prems have ne: "B \<noteq> []" "[] \<notin> set subs"
    and mem: "\<forall>p \<in> set B. \<not> distinguishable g p (hd B)"
    and apart: "\<forall>B' \<in> set subs. distinguishable g (hd B) (hd B')"
    and rest: "grouped g subs"
    by (auto simp: grouped_def)
  show ?case
  proof (cases "distinguishable g s (hd B)")
    case True
    from Cons.IH[OF rest] have g1: "grouped g (place g s subs)" .
    have "\<forall>B' \<in> set (place g s subs). distinguishable g (hd B) (hd B')"
    proof
      fix B' assume "B' \<in> set (place g s subs)"
      with heads_place[OF ne(2), of g s] have "hd B' = s \<or> hd B' \<in> hd ` set subs" by auto
      then show "distinguishable g (hd B) (hd B')"
      proof
        assume "hd B' = s"
        with True show ?thesis by (simp add: indist_sym[of g s])
      next
        assume "hd B' \<in> hd ` set subs"
        with apart show ?thesis by auto
      qed
    qed
    with True g1 ne mem show ?thesis by (simp add: grouped_def)
  next
    case False
    with ne mem apart rest show ?thesis by (simp add: grouped_def)
  qed
qed

lemma grouped_foldl_place:
  "grouped g subs \<Longrightarrow> grouped g (foldl (\<lambda>subs s_j. place g s_j subs) subs ss)"
  by (induction ss arbitrary: subs) (simp_all add: grouped_place)

lemma mset_concat_foldl_place:
  "mset (concat (foldl (\<lambda>subs s_j. place g s_j subs) subs ss)) = mset (concat subs) + mset ss"
  by (induction ss arbitrary: subs) (simp_all add: mset_concat_place)

lemma grouped_subPartitions: "grouped g (subPartitions g ss)"
proof (cases ss)
  case Nil
  then show ?thesis by (simp add: grouped_def)
next
  case (Cons s rest)
  have "grouped g [[s]]" by (simp add: grouped_def indist_refl)
  from grouped_foldl_place[OF this] Cons show ?thesis by simp
qed

lemma mset_concat_subPartitions: "mset (concat (subPartitions g ss)) = mset ss"
  by (cases ss) (simp_all add: mset_concat_foldl_place)

lemma grouped_block_indist:
  assumes "grouped g subs" "B \<in> set subs" "p \<in> set B" "q \<in> set B"
  shows "\<not> distinguishable g p q"
proof -
  from assms have "\<not> distinguishable g p (hd B)" "\<not> distinguishable g q (hd B)"
    by (auto simp: grouped_def)
  then show ?thesis using indist_sym[of g q "hd B"] indist_trans[of g p "hd B" q] by blast
qed

lemma grouped_same_block:
  assumes gr: "grouped g subs" and B: "B1 \<in> set subs" "B2 \<in> set subs"
    and p: "p \<in> set B1" and q: "q \<in> set B2" and i: "\<not> distinguishable g p q"
  shows "B1 = B2"
proof (rule ccontr)
  assume ne: "B1 \<noteq> B2"
  from gr B p q have "\<not> distinguishable g p (hd B1)" "\<not> distinguishable g q (hd B2)"
    by (auto simp: grouped_def)
  with i have h: "\<not> distinguishable g (hd B1) (hd B2)"
    using indist_sym[of g p "hd B1"] indist_trans[of g "hd B1" p q]
      indist_trans[of g "hd B1" q "hd B2"] by blast
  from B obtain i j where ij: "i < length subs" "subs ! i = B1" "j < length subs" "subs ! j = B2"
    by (auto simp: in_set_conv_nth)
  with ne have "i \<noteq> j" by auto
  from gr have sw: "\<And>a b. a < b \<Longrightarrow> b < length subs \<Longrightarrow>
      distinguishable g (hd (subs ! a)) (hd (subs ! b))"
    by (simp add: grouped_def sorted_wrt_iff_nth_less)
  show False
  proof (cases "i < j")
    case True
    from sw[OF True ij(3)] ij h show False by simp
  next
    case False
    with \<open>i \<noteq> j\<close> have "j < i" by simp
    from sw[OF this ij(1)] ij h show False by (simp add: indist_sym[of g "hd B2"])
  qed
qed


subsection \<open>What relabelling does to the heap\<close>

lemma relabel_Cons:
  "relabel i (B # rest) h =
     (\<lparr>states = B, pid = int i, label = mk_label (set_pids (int i) B h) B\<rparr>
        # fst (relabel (Suc i) rest (set_pids (int i) B h)),
      snd (relabel (Suc i) rest (set_pids (int i) B h)))"
  by (cases "relabel (Suc i) rest (set_pids (int i) B h)") (simp add: Let_def)

lemma relabel_fields:
  "isFinal (rd (snd (relabel i subs h)) p) = isFinal (rd h p) \<and>
   nxt (rd (snd (relabel i subs h)) p) = nxt (rd h p) \<and>
   name (rd (snd (relabel i subs h)) p) = name (rd h p) \<and>
   ident (rd (snd (relabel i subs h)) p) = ident (rd h p)"
proof (induction subs arbitrary: i h)
  case Nil
  show ?case by simp
next
  case (Cons B rest)
  show ?case
    unfolding relabel_Cons snd_conv
    using Cons.IH[of "Suc i" "set_pids (int i) B h"] by (simp add: rd_set_pids)
qed

lemma relabel_untouched:
  "the p \<notin> the ` set (concat subs) \<Longrightarrow> rd (snd (relabel i subs h)) p = rd h p"
proof (induction subs arbitrary: i h)
  case Nil
  show ?case by simp
next
  case (Cons B rest)
  from Cons.prems have a: "the p \<notin> the ` set B" "the p \<notin> the ` set (concat rest)"
    by auto
  show ?case
    unfolding relabel_Cons snd_conv Cons.IH[OF a(2)] using a(1) by (simp add: rd_set_pids)
qed

lemma relabel_allocated: "h a \<noteq> None \<Longrightarrow> snd (relabel i subs h) a \<noteq> None"
proof (induction subs arbitrary: i h)
  case Nil
  then show ?case by simp
next
  case (Cons B rest)
  show ?case
    unfolding relabel_Cons snd_conv
    using set_pids_allocated[of h a "int i" B] Cons.prems
    by (intro Cons.IH) simp
qed

lemma relabel_pid:
  "distinct (map the (concat subs)) \<Longrightarrow> j < length subs \<Longrightarrow> p \<in> set (subs ! j) \<Longrightarrow>
   partitionId (rd (snd (relabel i subs h)) p) = int (i + j)"
proof (induction subs arbitrary: i h j)
  case Nil
  then show ?case by simp
next
  case (Cons B rest)
  show ?case
  proof (cases j)
    case 0
    with Cons.prems have p: "p \<in> set B" by simp
    with Cons.prems(1) have "the p \<notin> the ` set (concat rest)" by auto
    from relabel_untouched[OF this]
    have "rd (snd (relabel (Suc i) rest (set_pids (int i) B h))) p = rd (set_pids (int i) B h) p" .
    with p 0 show ?thesis
      unfolding relabel_Cons snd_conv by (simp add: rd_set_pids)
  next
    case (Suc j')
    with Cons.prems have "distinct (map the (concat rest))" "j' < length rest" "p \<in> set (rest ! j')"
      by auto
    from Cons.IH[OF this] Suc show ?thesis
      unfolding relabel_Cons snd_conv by simp
  qed
qed

lemma relabel_pid_field:
  "j < length subs \<Longrightarrow> pid (fst (relabel i subs h) ! j) = int (i + j)"
proof (induction subs arbitrary: i h j)
  case Nil
  then show ?case by simp
next
  case (Cons B rest)
  show ?case
  proof (cases j)
    case 0
    then show ?thesis unfolding relabel_Cons fst_conv by simp
  next
    case (Suc j')
    with Cons.prems have "j' < length rest" by simp
    from Cons.IH[OF this] Suc show ?thesis unfolding relabel_Cons fst_conv by simp
  qed
qed

lemma distinct_map_the: "distinct xs \<Longrightarrow> None \<notin> set xs \<Longrightarrow> distinct (map the xs)"
proof (induction xs)
  case Nil
  show ?case by simp
next
  case (Cons x xs)
  from Cons.prems have x1: "x \<noteq> None" by (cases x) auto
  from Cons.prems have x2: "None \<notin> set xs" by simp
  from the_image_ptr[OF x1 x2] Cons.prems have "the x \<notin> the ` set xs" by simp
  moreover from Cons.IH Cons.prems x2 have "distinct (map the xs)" by simp
  ultimately show ?case by simp
qed


subsection \<open>One refinement pass\<close>

definition new_blocks :: "globals \<Rightarrow> ptr list list" where
  "new_blocks g = concat (map (subPartitions g) (blocks_of g))"

definition some_split :: "globals \<Rightarrow> bool" where
  "some_split g \<longleftrightarrow> (\<exists>P \<in> set (partitions g). splits g P)"

lemma subPartitions_single: "subPartitions g [s] = [[s]]"
  by simp

lemma blocks_subPartitions: "states P \<noteq> [] \<Longrightarrow> blocks g P = subPartitions g (states P)"
proof (cases "states P")
  case Nil
  assume "states P \<noteq> []" with Nil show ?thesis by simp
next
  case (Cons s rest)
  show ?thesis
  proof (cases rest)
    case Nil
    with Cons show ?thesis by (simp add: blocks_def count_def)
  next
    case (Cons t rest')
    with \<open>states P = s # rest\<close> show ?thesis by (simp add: blocks_def count_def)
  qed
qed

lemma concat_blocks:
  assumes "[] \<notin> set (blocks_of g)"
  shows "concat (map (blocks g) (partitions g)) = new_blocks g"
proof -
  have "map (blocks g) (partitions g) = map (subPartitions g) (blocks_of g)"
    unfolding blocks_of_def map_map comp_def
  proof (rule map_cong[OF refl])
    fix P assume "P \<in> set (partitions g)"
    then have "states P \<in> set (blocks_of g)" by (simp add: blocks_of_def)
    with assms have "states P \<noteq> []" by metis
    then show "blocks g P = subPartitions g (states P)" by (rule blocks_subPartitions)
  qed
  then show ?thesis unfolding new_blocks_def by (rule arg_cong)
qed

lemma length_le_concat: "[] \<notin> set xss \<Longrightarrow> length xss \<le> length (concat xss)"
proof (induction xss)
  case Nil
  show ?case by simp
next
  case (Cons xs xss)
  then have "xs \<noteq> []" by auto
  then have "1 \<le> length xs" by (cases xs) auto
  with Cons show ?case by simp
qed

lemma mset_concat_new_blocks: "mset (concat (new_blocks g)) = mset (concat (blocks_of g))"
proof -
  have "mset (concat (concat (map (subPartitions g) Bs))) = mset (concat Bs)" for Bs
    by (induction Bs) (simp_all add: mset_concat_subPartitions)
  then show ?thesis by (simp add: new_blocks_def)
qed

lemma new_blocks_nonempty: "[] \<notin> set (new_blocks g)"
proof -
  have "[] \<notin> set (subPartitions g B)" for B
    using grouped_subPartitions[of g B] by (simp add: grouped_def)
  then show ?thesis by (auto simp: new_blocks_def)
qed

lemma length_concat_blocks: "distinct (concat (blocks_of g)) \<Longrightarrow>
  set (concat (blocks_of g)) = set (allStates g) \<Longrightarrow> distinct (allStates g) \<Longrightarrow>
  length (concat (blocks_of g)) = nStates g"
  using distinct_card[of "concat (blocks_of g)"] distinct_card[of "allStates g"]
  by (simp add: nStates_def)

lemma part_inv_count: "part_inv g \<Longrightarrow> length (concat (blocks_of g)) = nStates g"
  by (rule length_concat_blocks) (simp_all add: part_inv_def wf_graph_def)

lemma nPartitions_le_nStates:
  assumes "part_inv g"
  shows "nPartitions g \<le> nStates g"
proof -
  from assms have "[] \<notin> set (blocks_of g)" by (simp add: part_inv_def)
  from length_le_concat[OF this] part_inv_count[OF assms]
  show ?thesis by (simp add: nPartitions_def blocks_of_def)
qed

lemma length_new_blocks_le:
  assumes "part_inv g"
  shows "length (new_blocks g) \<le> nStates g"
proof -
  have "length (new_blocks g) \<le> length (concat (new_blocks g))"
    by (rule length_le_concat[OF new_blocks_nonempty])
  also have "\<dots> = length (concat (blocks_of g))"
    using mset_concat_new_blocks[of g] by (rule mset_eq_length)
  also have "\<dots> = nStates g" by (rule part_inv_count[OF assms])
  finally show ?thesis .
qed

lemma foldl_refine_partition_inv:
  assumes "part_inv g"
  shows "foldl (refine_partition g) ([], False) (partitions g) = (new_blocks g, some_split g)"
proof -
  from assms have ne: "[] \<notin> set (blocks_of g)" and "nStates g \<le> MAX_STATES"
    by (simp_all add: part_inv_def wf_graph_def)
  with length_new_blocks_le[OF assms] have "length (new_blocks g) \<le> MAX_STATES" by simp
  then have "take MAX_STATES (new_blocks g) = new_blocks g" by simp
  with foldl_refine_partition[of "[]" g False "partitions g"] concat_blocks[OF ne]
  show ?thesis by (simp add: some_split_def)
qed


lemma length_subPartitions_ge: "B \<noteq> [] \<Longrightarrow> 1 \<le> length (subPartitions g B)"
  using subPartitions_props[of B g] by simp

lemma splits_blocks_of: "splits g P \<longleftrightarrow> 1 < length (states P) \<and> 1 < length (subPartitions g (states P))"
  by (simp add: splits_def count_def)

lemma length_new_blocks:
  "length (new_blocks g) = sum_list (map (\<lambda>B. length (subPartitions g B)) (blocks_of g))"
  by (simp add: new_blocks_def length_concat comp_def)

lemma sum_list_ones: "sum_list (map (\<lambda>B. 1::nat) xs) = length xs"
  by (induction xs) auto

lemma nPartitions_blocks_of: "nPartitions g = length (blocks_of g)"
  by (simp add: nPartitions_def blocks_of_def)

lemma length_new_blocks_ge:
  assumes "[] \<notin> set (blocks_of g)"
  shows "nPartitions g \<le> length (new_blocks g)"
proof -
  have "sum_list (map (\<lambda>B. 1) (blocks_of g)) \<le>
        sum_list (map (\<lambda>B. length (subPartitions g B)) (blocks_of g))"
  proof (rule sum_list_mono)
    fix B assume "B \<in> set (blocks_of g)"
    with assms have "B \<noteq> []" by metis
    then show "1 \<le> length (subPartitions g B)" by (rule length_subPartitions_ge)
  qed
  then show ?thesis
    unfolding length_new_blocks nPartitions_blocks_of sum_list_ones .
qed

lemma length_new_blocks_split:
  assumes ne: "[] \<notin> set (blocks_of g)" and sp: "some_split g"
  shows "nPartitions g < length (new_blocks g)"
proof -
  from sp obtain P where P: "P \<in> set (partitions g)" "splits g P"
    by (auto simp: some_split_def)
  then have B: "states P \<in> set (blocks_of g)" "1 < length (subPartitions g (states P))"
    by (simp_all add: blocks_of_def splits_blocks_of)
  have le: "\<And>B. B \<in> set (blocks_of g) \<Longrightarrow> (1::nat) \<le> length (subPartitions g B)"
  proof -
    fix B assume "B \<in> set (blocks_of g)"
    with ne have "B \<noteq> []" by metis
    then show "1 \<le> length (subPartitions g B)" by (rule length_subPartitions_ge)
  qed
  have "sum_list (map (\<lambda>B. 1) (blocks_of g)) <
        sum_list (map (\<lambda>B. length (subPartitions g B)) (blocks_of g))"
    using sum_list_strict[of "blocks_of g" "\<lambda>B. 1" "\<lambda>B. length (subPartitions g B)" "states P"]
      le B by blast
  then show ?thesis
    unfolding length_new_blocks nPartitions_blocks_of sum_list_ones .
qed

lemma length_new_blocks_stable:
  assumes ne: "[] \<notin> set (blocks_of g)" and sp: "\<not> some_split g"
  shows "length (new_blocks g) = nPartitions g"
proof -
  have "map (\<lambda>B. length (subPartitions g B)) (blocks_of g) = map (\<lambda>B. 1) (blocks_of g)"
  proof (rule map_cong[OF refl])
    fix B assume B: "B \<in> set (blocks_of g)"
    then obtain P where P: "P \<in> set (partitions g)" "B = states P"
      by (auto simp: blocks_of_def)
    from B ne have bn: "B \<noteq> []" by metis
    show "length (subPartitions g B) = 1"
    proof (cases "1 < length B")
      case True
      with sp P have "\<not> 1 < length (subPartitions g B)"
        by (auto simp: some_split_def splits_blocks_of)
      with length_subPartitions_ge[OF bn, of g] show ?thesis by simp
    next
      case False
      with bn obtain s where "B = [s]" by (cases B) auto
      then show ?thesis by simp
    qed
  qed
  then have "sum_list (map (\<lambda>B. length (subPartitions g B)) (blocks_of g))
           = sum_list (map (\<lambda>B. 1) (blocks_of g))"
    by (rule arg_cong)
  then show ?thesis
    unfolding length_new_blocks nPartitions_blocks_of sum_list_ones .
qed

definition relabelled :: "globals \<Rightarrow> globals" where
  "relabelled g =
     g\<lparr>heap := snd (relabel 0 (new_blocks g) (heap g)),
       partitions := fst (relabel 0 (new_blocks g) (heap g))\<rparr>"

lemma refine_pass_split:
  assumes "part_inv g" "some_split g"
  shows "refine_pass g = (relabelled g, True)"
  using assms(2)
  by (simp add: refine_pass_def foldl_refine_partition_inv[OF assms(1)] relabelled_def
      split: prod.splits)

lemma refine_pass_stable:
  assumes "part_inv g" "\<not> some_split g"
  shows "refine_pass g = (g, False)"
proof -
  from assms(1) have "[] \<notin> set (blocks_of g)" by (simp add: part_inv_def)
  from length_new_blocks_stable[OF this assms(2)] assms(2) show ?thesis
    by (simp add: refine_pass_def foldl_refine_partition_inv[OF assms(1)])
qed

lemma blocks_of_relabelled: "blocks_of (relabelled g) = new_blocks g"
  by (simp add: relabelled_def blocks_of_def relabel_states)

lemma relabelled_frame:
  "allStates (relabelled g) = allStates g"
  "nStates (relabelled g) = nStates g"
  "isFinal (deref (relabelled g) p) = isFinal (deref g p)"
  "nxt (deref (relabelled g) p) = nxt (deref g p)"
  "name (deref (relabelled g) p) = name (deref g p)"
  by (simp_all add: relabelled_def nStates_def deref_def relabel_fields)

lemma part_inv_relabelled:
  assumes inv: "part_inv g"
  shows "part_inv (relabelled g)"
proof -
  let ?g = "relabelled g"
  from inv have wf: "wf_graph g" and d: "distinct (concat (blocks_of g))"
    and st: "set (concat (blocks_of g)) = set (allStates g)"
    by (simp_all add: part_inv_def)
  have al: "\<And>a. heap g a \<noteq> None \<Longrightarrow> heap ?g a \<noteq> None"
    by (simp add: relabelled_def relabel_allocated del: not_None_eq)
  have w: "wf_graph ?g"
    by (rule wf_graph_frame[OF wf _ al]) (simp_all add: relabelled_frame)
  have m: "mset (concat (blocks_of ?g)) = mset (concat (blocks_of g))"
    by (simp add: blocks_of_relabelled mset_concat_new_blocks)
  have d': "distinct (concat (blocks_of ?g))"
    using mset_eq_imp_distinct_iff[OF m] d by simp
  have s': "set (concat (blocks_of ?g)) = set (allStates ?g)"
    using mset_eq_setD[OF m] st by (simp add: relabelled_frame)
  have e: "[] \<notin> set (blocks_of ?g)"
    by (simp add: blocks_of_relabelled new_blocks_nonempty)
  have nn: "None \<notin> set (concat (new_blocks g))"
    using s' wf_graph_no_null[OF wf] by (simp add: blocks_of_relabelled relabelled_frame)
  have dt: "distinct (map the (concat (new_blocks g)))"
    using distinct_map_the[OF _ nn] d' by (simp add: blocks_of_relabelled)
  have i: "\<forall>i < length (blocks_of ?g). \<forall>p \<in> set (blocks_of ?g ! i).
             partitionId (deref ?g p) = int i"
    using relabel_pid[OF dt, of _ _ 0 "heap g"]
    by (simp add: blocks_of_relabelled) (simp add: relabelled_def deref_def)
  from w d' s' e i show ?thesis unfolding part_inv_def by simp
qed

lemma part_inv_refine_pass: "part_inv g \<Longrightarrow> part_inv (fst (refine_pass g))"
  by (cases "some_split g") (simp_all add: refine_pass_split refine_pass_stable part_inv_relabelled)


subsection \<open>The loop of refineAllPartitions\<close>

lemma refineAllPartitions_last:
  assumes "I g" and step: "\<And>g. I g \<Longrightarrow> I (fst (refine_pass g))"
  shows "\<exists>gl. I gl \<and> \<not> snd (refine_pass gl) \<and> refineAllPartitions g = fst (refine_pass gl)"
  using assms(1)
proof (induction g rule: refineAllPartitions.induct)
  case (1 g)
  show ?case
  proof (cases "snd (refine_pass g)")
    case True
    have e: "(fst (refine_pass g), True) = refine_pass g"
      using True by (cases "refine_pass g") simp
    from "1.IH"[OF e _ step[OF "1.prems"]]
    obtain gl where "I gl" "\<not> snd (refine_pass gl)"
      "refineAllPartitions (fst (refine_pass g)) = fst (refine_pass gl)" by auto
    moreover have "refineAllPartitions g = refineAllPartitions (fst (refine_pass g))"
      using True by (subst refineAllPartitions_if) simp
    ultimately show ?thesis by auto
  next
    case False
    then have "refineAllPartitions g = fst (refine_pass g)"
      by (subst refineAllPartitions_if) simp
    with False "1.prems" show ?thesis by auto
  qed
qed

lemma snd_refine_pass: "part_inv g \<Longrightarrow> snd (refine_pass g) = some_split g"
  by (cases "some_split g") (simp_all add: refine_pass_split refine_pass_stable)

lemma refineAllPartitions_fixpoint:
  assumes inv: "part_inv g" and I: "I g"
    and step: "\<And>g. part_inv g \<Longrightarrow> I g \<Longrightarrow> I (fst (refine_pass g))"
  shows "part_inv (refineAllPartitions g) \<and> I (refineAllPartitions g) \<and>
         \<not> some_split (refineAllPartitions g)"
proof -
  have "\<exists>gl. (part_inv gl \<and> I gl) \<and> \<not> snd (refine_pass gl) \<and>
          refineAllPartitions g = fst (refine_pass gl)"
    by (rule refineAllPartitions_last[where I = "\<lambda>g. part_inv g \<and> I g"])
       (simp_all add: inv I part_inv_refine_pass step)
  then obtain gl where gl: "part_inv gl" "I gl" "\<not> snd (refine_pass gl)"
    "refineAllPartitions g = fst (refine_pass gl)" by auto
  from gl(1,3) have ns: "\<not> some_split gl" by (simp add: snd_refine_pass)
  with gl(1,4) have "refineAllPartitions g = gl" by (simp add: refine_pass_stable)
  with gl ns show ?thesis by simp
qed

text \<open>
  \<open>refine_fuel n\<close> runs the loop of \<open>refineAllPartitions\<close> for at most \<open>n\<close> passes
  and yields \<open>None\<close> when the loop has not ended by then.
\<close>

fun refine_fuel :: "nat \<Rightarrow> globals \<Rightarrow> globals option" where
  "refine_fuel 0 g = None"
| "refine_fuel (Suc n) g =
     (if snd (refine_pass g) then refine_fuel n (fst (refine_pass g))
      else Some (fst (refine_pass g)))"

lemma nPartitions_relabelled: "nPartitions (relabelled g) = length (new_blocks g)"
  using blocks_of_relabelled[of g] by (simp add: nPartitions_blocks_of)

lemma refine_fuel_enough:
  "part_inv g \<Longrightarrow> nStates g - nPartitions g < n \<Longrightarrow>
   refine_fuel n g = Some (refineAllPartitions g)"
proof (induction n arbitrary: g)
  case 0
  then show ?case by simp
next
  case (Suc n)
  show ?case
  proof (cases "some_split g")
    case False
    with Suc.prems(1) show ?thesis
      by (subst refineAllPartitions_if) (simp add: refine_pass_stable)
  next
    case True
    from Suc.prems(1) have ne: "[] \<notin> set (blocks_of g)" by (simp add: part_inv_def)
    have inv': "part_inv (relabelled g)" by (rule part_inv_relabelled[OF Suc.prems(1)])
    have lt: "nPartitions g < nPartitions (relabelled g)"
      using length_new_blocks_split[OF ne True] by (simp add: nPartitions_relabelled)
    have le: "nPartitions (relabelled g) \<le> nStates g"
      using nPartitions_le_nStates[OF inv'] by (simp add: relabelled_frame)
    from lt le Suc.prems(2) have "nStates (relabelled g) - nPartitions (relabelled g) < n"
      by (simp add: relabelled_frame)
    from Suc.IH[OF inv' this] True Suc.prems(1) show ?thesis
      by (subst refineAllPartitions_if) (simp add: refine_pass_split)
  qed
qed

lemma nPartitions_pos:
  assumes "part_inv g" "allStates g \<noteq> []"
  shows "0 < nPartitions g"
proof -
  from assms have "concat (blocks_of g) \<noteq> []"
    by (metis part_inv_def set_empty)
  then show ?thesis by (auto simp: nPartitions_blocks_of)
qed

lemma pass_count_mono:
  assumes "part_inv g"
  shows "nPartitions g \<le> nPartitions (fst (refine_pass g))"
    and "nPartitions (fst (refine_pass g)) \<le> nStates g"
    and "nStates (fst (refine_pass g)) = nStates g"
proof -
  from assms have ne: "[] \<notin> set (blocks_of g)" by (simp add: part_inv_def)
  show "nPartitions g \<le> nPartitions (fst (refine_pass g))"
    using length_new_blocks_ge[OF ne] assms
    by (cases "some_split g")
       (simp_all add: refine_pass_split refine_pass_stable nPartitions_relabelled)
  show "nPartitions (fst (refine_pass g)) \<le> nStates g"
    using nPartitions_le_nStates[OF part_inv_refine_pass[OF assms]] assms
    by (cases "some_split g")
       (simp_all add: refine_pass_split refine_pass_stable relabelled_frame)
  show "nStates (fst (refine_pass g)) = nStates g"
    using assms
    by (cases "some_split g")
       (simp_all add: refine_pass_split refine_pass_stable relabelled_frame)
qed

lemma passes_inv:
  assumes "part_inv g"
  shows "part_inv (((\<lambda>g. fst (refine_pass g)) ^^ k) g) \<and>
         nStates (((\<lambda>g. fst (refine_pass g)) ^^ k) g) = nStates g"
proof (induction k)
  case 0
  show ?case using assms by simp
next
  case (Suc k)
  then show ?case
    using part_inv_refine_pass pass_count_mono(3) by simp
qed


lemma part_inv_pipeline_start:
  assumes "wf_graph g0" "start \<in> set (allStates g0)"
  shows "part_inv (initialPartition (removeUnreachable start g0))"
    and "allStates (initialPartition (removeUnreachable start g0))
           = filter (reach g0 start) (allStates g0)"
    and "start \<in> set (allStates (initialPartition (removeUnreachable start g0)))"
proof -
  show "part_inv (initialPartition (removeUnreachable start g0))"
    by (rule part_inv_initialPartition[OF wf_graph_removeUnreachable[OF assms]])
  show a: "allStates (initialPartition (removeUnreachable start g0))
           = filter (reach g0 start) (allStates g0)"
    by (simp add: initialPartition_frame removeUnreachable_allStates[OF assms])
  show "start \<in> set (allStates (initialPartition (removeUnreachable start g0)))"
    using assms(2) by (simp add: a reach_start)
qed

text \<open>
  Claim C7. After pruning and the initial partition, every refinement pass leaves
  the number of partitions the same or larger, that number never exceeds the
  number of reachable states, and the loop of \<open>refineAllPartitions\<close> ends within as
  many passes as there are reachable states.
\<close>

theorem refinement_passes_bounded:
  assumes "wf_graph g0" and "start \<in> set (allStates g0)"
  shows "nStates (initialPartition (removeUnreachable start g0))
           = length (filter (reach g0 start) (allStates g0)) \<and>
    (\<forall>k. nPartitions (((\<lambda>g. fst (refine_pass g)) ^^ k)
                (initialPartition (removeUnreachable start g0)))
          \<le> nPartitions (((\<lambda>g. fst (refine_pass g)) ^^ Suc k)
                (initialPartition (removeUnreachable start g0))) \<and>
         nPartitions (((\<lambda>g. fst (refine_pass g)) ^^ k)
                (initialPartition (removeUnreachable start g0)))
          \<le> nStates (initialPartition (removeUnreachable start g0))) \<and>
    refine_fuel (nStates (initialPartition (removeUnreachable start g0)))
        (initialPartition (removeUnreachable start g0))
      = Some (refineAllPartitions (initialPartition (removeUnreachable start g0)))"
proof -
  let ?g1 = "initialPartition (removeUnreachable start g0)"
  let ?pass = "\<lambda>g. fst (refine_pass g)"
  note p = part_inv_pipeline_start[OF assms]
  have n: "nStates ?g1 = length (filter (reach g0 start) (allStates g0))"
    by (simp add: nStates_def p(2))
  have m: "\<forall>k. nPartitions ((?pass ^^ k) ?g1) \<le> nPartitions ((?pass ^^ Suc k) ?g1) \<and>
         nPartitions ((?pass ^^ k) ?g1) \<le> nStates ?g1"
  proof
    fix k
    from passes_inv[OF p(1), of k]
    have i: "part_inv ((?pass ^^ k) ?g1)" "nStates ((?pass ^^ k) ?g1) = nStates ?g1" by auto
    from pass_count_mono(1)[OF i(1)] nPartitions_le_nStates[OF i(1)] i(2)
    show "nPartitions ((?pass ^^ k) ?g1) \<le> nPartitions ((?pass ^^ Suc k) ?g1) \<and>
         nPartitions ((?pass ^^ k) ?g1) \<le> nStates ?g1" by simp
  qed
  have ne: "allStates ?g1 \<noteq> []" using p(3) by auto
  have "nStates ?g1 - nPartitions ?g1 < nStates ?g1"
    using nPartitions_pos[OF p(1) ne] nPartitions_le_nStates[OF p(1)] by simp
  from refine_fuel_enough[OF p(1) this] n m show ?thesis by simp
qed

theorem refinement_passes_bounded_witness:
  "wf_graph dfa2 \<and> Some 101 \<in> set (allStates dfa2) \<and>
   nStates (initialPartition (removeUnreachable (Some 101) dfa2)) = 3 \<and>
   refine_fuel 3 (initialPartition (removeUnreachable (Some 101) dfa2))
     = Some (refineAllPartitions (initialPartition (removeUnreachable (Some 101) dfa2)))"
proof -
  have s: "Some 101 \<in> set (allStates dfa2)" by (simp add: dfa2_all)
  have n: "nStates (initialPartition (removeUnreachable (Some 101) dfa2)) = 3"
    using pruned2_all by (simp add: initialPartition_frame nStates_def pruned2_def)
  from refinement_passes_bounded [OF wf_graph_dfa2 s] wf_graph_dfa2 s n
  show ?thesis by simp
qed


subsection \<open>Partitions never mix accepting and other states\<close>

lemma subPartitions_subset: "B' \<in> set (subPartitions g ss) \<Longrightarrow> set B' \<subseteq> set ss"
proof -
  assume "B' \<in> set (subPartitions g ss)"
  then have "set B' \<subseteq> set (concat (subPartitions g ss))" by auto
  also have "\<dots> = set ss"
    using mset_concat_subPartitions[of g ss] by (rule mset_eq_setD)
  finally show ?thesis .
qed

lemma blocks_subset: "B' \<in> set (blocks g P) \<Longrightarrow> set B' \<subseteq> set (states P)"
  using subPartitions_subset[of B' g "states P"]
  by (auto simp: blocks_def split: if_splits)

lemma refine_pass_cases:
  "fst (refine_pass g) = g \<or>
   (\<exists>newL. set newL \<subseteq> set (concat (map (blocks g) (partitions g))) \<and>
      fst (refine_pass g) =
        g\<lparr>heap := snd (relabel 0 newL (heap g)), partitions := fst (relabel 0 newL (heap g))\<rparr>)"
proof -
  let ?L = "take MAX_STATES (concat (map (blocks g) (partitions g)))"
  have f: "foldl (refine_partition g) ([], False) (partitions g)
           = (?L, \<exists>P \<in> set (partitions g). splits g P)"
    using foldl_refine_partition[of "[]" g False "partitions g"] by simp
  have s: "set ?L \<subseteq> set (concat (map (blocks g) (partitions g)))"
    by (rule set_take_subset)
  show ?thesis
  proof (cases "(\<exists>P \<in> set (partitions g). splits g P) \<or> length ?L \<noteq> nPartitions g")
    case True
    then have "fst (refine_pass g) =
        g\<lparr>heap := snd (relabel 0 ?L (heap g)), partitions := fst (relabel 0 ?L (heap g))\<rparr>"
      unfolding refine_pass_def f by (simp split: prod.splits)
    with s show ?thesis by blast
  next
    case False
    then have "fst (refine_pass g) = g"
      unfolding refine_pass_def f by simp
    then show ?thesis by simp
  qed
qed

lemma refine_pass_frame:
  "allStates (fst (refine_pass g)) = allStates g \<and>
   isFinal (deref (fst (refine_pass g)) p) = isFinal (deref g p) \<and>
   nxt (deref (fst (refine_pass g)) p) = nxt (deref g p) \<and>
   name (deref (fst (refine_pass g)) p) = name (deref g p)"
proof -
  from refine_pass_cases[of g] show ?thesis
  proof
    assume e: "fst (refine_pass g) = g"
    show ?thesis unfolding e by simp
  next
    assume "\<exists>newL. set newL \<subseteq> set (concat (map (blocks g) (partitions g))) \<and>
      fst (refine_pass g) =
        g\<lparr>heap := snd (relabel 0 newL (heap g)), partitions := fst (relabel 0 newL (heap g))\<rparr>"
    then obtain newL where e: "fst (refine_pass g) =
        g\<lparr>heap := snd (relabel 0 newL (heap g)), partitions := fst (relabel 0 newL (heap g))\<rparr>"
      by blast
    show ?thesis unfolding e by (simp add: deref_def relabel_fields)
  qed
qed

lemma refine_pass_blocks:
  assumes "B' \<in> set (blocks_of (fst (refine_pass g)))"
  shows "\<exists>B \<in> set (blocks_of g). set B' \<subseteq> set B"
proof -
  from refine_pass_cases[of g] show ?thesis
  proof
    assume e: "fst (refine_pass g) = g"
    from assms have "B' \<in> set (blocks_of g)" unfolding e .
    then show ?thesis by blast
  next
    assume "\<exists>newL. set newL \<subseteq> set (concat (map (blocks g) (partitions g))) \<and>
      fst (refine_pass g) =
        g\<lparr>heap := snd (relabel 0 newL (heap g)), partitions := fst (relabel 0 newL (heap g))\<rparr>"
    then obtain newL where n: "set newL \<subseteq> set (concat (map (blocks g) (partitions g)))"
      and e: "fst (refine_pass g) =
        g\<lparr>heap := snd (relabel 0 newL (heap g)), partitions := fst (relabel 0 newL (heap g))\<rparr>"
      by blast
    from e have "blocks_of (fst (refine_pass g)) = newL"
      by (simp add: blocks_of_def relabel_states)
    with assms n have "B' \<in> set (concat (map (blocks g) (partitions g)))" by blast
    then obtain P where P: "P \<in> set (partitions g)" "B' \<in> set (blocks g P)"
      by auto
    from blocks_subset[OF P(2)] P(1) show ?thesis
      by (auto simp: blocks_of_def)
  qed
qed

lemma homogeneous_refine_pass:
  assumes "homogeneous g"
  shows "homogeneous (fst (refine_pass g))"
  unfolding homogeneous_def
proof (intro ballI)
  fix B' p q
  assume B': "B' \<in> set (blocks_of (fst (refine_pass g)))" and p: "p \<in> set B'" and q: "q \<in> set B'"
  from refine_pass_blocks[OF B'] obtain B where B: "B \<in> set (blocks_of g)" "set B' \<subseteq> set B"
    by auto
  with p q have "p \<in> set B" "q \<in> set B" by auto
  with assms B(1) have "isFinal (deref g p) = isFinal (deref g q)"
    unfolding homogeneous_def by blast
  then show "isFinal (deref (fst (refine_pass g)) p) = isFinal (deref (fst (refine_pass g)) q)"
    by (simp add: refine_pass_frame)
qed

lemma homogeneous_passes:
  "homogeneous g \<Longrightarrow> homogeneous (((\<lambda>g. fst (refine_pass g)) ^^ k) g)"
  by (induction k) (simp_all add: homogeneous_refine_pass)

lemma homogeneous_refineAllPartitions:
  assumes "homogeneous g"
  shows "homogeneous (refineAllPartitions g)"
proof -
  from refineAllPartitions_last[of homogeneous g, OF assms homogeneous_refine_pass]
  obtain gl where "homogeneous gl" "refineAllPartitions g = fst (refine_pass gl)" by auto
  then show ?thesis by (simp add: homogeneous_refine_pass)
qed

text \<open>
  Claim C8. After \<open>initialPartition\<close>, after any number of refinement passes and
  when \<open>refineAllPartitions\<close> has returned, the states of one partition all have
  the same accepting flag; so the flag that \<open>printMinimizedDFA\<close> takes from the
  first member of a partition is the flag of every member.
\<close>

theorem partitions_agree_on_isFinal:
  "(\<forall>k. homogeneous (((\<lambda>g. fst (refine_pass g)) ^^ k) (initialPartition g))) \<and>
   homogeneous (refineAllPartitions (initialPartition g)) \<and>
   (\<forall>P \<in> set (partitions (refineAllPartitions (initialPartition g))).
      \<forall>p \<in> set (states P).
        row_final (print_row (refineAllPartitions (initialPartition g)) P)
          = isFinal (deref (refineAllPartitions (initialPartition g)) p))"
proof (intro conjI allI ballI)
  fix k
  show "homogeneous (((\<lambda>g. fst (refine_pass g)) ^^ k) (initialPartition g))"
    by (rule homogeneous_passes[OF homogeneous_initialPartition])
next
  show "homogeneous (refineAllPartitions (initialPartition g))"
    by (rule homogeneous_refineAllPartitions[OF homogeneous_initialPartition])
next
  let ?g = "refineAllPartitions (initialPartition g)"
  fix P p assume P: "P \<in> set (partitions ?g)" and p: "p \<in> set (states P)"
  have h: "homogeneous ?g"
    by (rule homogeneous_refineAllPartitions[OF homogeneous_initialPartition])
  from p have "states P \<noteq> []" by auto
  then have "states P ! 0 \<in> set (states P)" by simp
  moreover from P have "states P \<in> set (blocks_of ?g)" by (simp add: blocks_of_def)
  ultimately have "isFinal (deref ?g (states P ! 0)) = isFinal (deref ?g p)"
    using h p unfolding homogeneous_def by blast
  then show "row_final (print_row ?g P) = isFinal (deref ?g p)"
    by (simp add: print_row_def Let_def)
qed

theorem partitions_agree_on_isFinal_witness:
  "\<lparr>states = [Some 102, Some 103], pid = 0, label = ''{q2,q3}''\<rparr>
     \<in> set (partitions (refineAllPartitions (initialPartition pruned2))) \<and>
   Some 103 \<in> set (states \<lparr>states = [Some 102, Some 103], pid = 0, label = ''{q2,q3}''\<rparr>) \<and>
   row_final (print_row (refineAllPartitions (initialPartition pruned2))
       \<lparr>states = [Some 102, Some 103], pid = 0, label = ''{q2,q3}''\<rparr>)
     = isFinal (deref (refineAllPartitions (initialPartition pruned2)) (Some 103)) \<and>
   isFinal (deref (refineAllPartitions (initialPartition pruned2)) (Some 103))"
proof -
  have e: "refineAllPartitions (initialPartition pruned2) = initial2"
    using final2_eq by (simp add: final2_def initial2_def)
  have m: "\<lparr>states = [Some 102, Some 103], pid = 0, label = ''{q2,q3}''\<rparr>
     \<in> set (partitions (refineAllPartitions (initialPartition pruned2)))"
    by (simp add: e initial2_partitions)
  have f: "isFinal (deref (refineAllPartitions (initialPartition pruned2)) (Some 103))"
    by (simp add: e deref_def rd_def initial2_heap)
  have s: "Some 103 \<in> set (states \<lparr>states = [Some 102, Some 103], pid = 0, label = ''{q2,q3}''\<rparr>)"
    by simp
  from partitions_agree_on_isFinal [of pruned2]
  have "\<forall>P \<in> set (partitions (refineAllPartitions (initialPartition pruned2))).
      \<forall>p \<in> set (states P).
        row_final (print_row (refineAllPartitions (initialPartition pruned2)) P)
          = isFinal (deref (refineAllPartitions (initialPartition pruned2)) p)"
    by blast
  from bspec[OF bspec[OF this m] s] m s f show ?thesis by blast
qed


subsection \<open>The partition list at the fixpoint\<close>

definition same_part :: "globals \<Rightarrow> ptr \<Rightarrow> ptr \<Rightarrow> bool" where
  "same_part g p q \<longleftrightarrow> (\<exists>P \<in> set (partitions g). p \<in> set (states P) \<and> q \<in> set (states P))"

lemma same_part_blocks:
  "same_part g p q \<longleftrightarrow> (\<exists>B \<in> set (blocks_of g). p \<in> set B \<and> q \<in> set B)"
  by (auto simp: same_part_def blocks_of_def)

lemma stable_indist:
  assumes ns: "\<not> some_split g" and B: "B \<in> set (blocks_of g)"
    and p: "p \<in> set B" and q: "q \<in> set B"
  shows "\<not> distinguishable g p q"
proof (cases "1 < length B")
  case True
  from B obtain P where P: "P \<in> set (partitions g)" "B = states P"
    by (auto simp: blocks_of_def)
  with ns True have "\<not> 1 < length (subPartitions g B)"
    by (auto simp: some_split_def splits_blocks_of)
  moreover from p have "B \<noteq> []" by auto
  from length_subPartitions_ge[OF this, of g] have "1 \<le> length (subPartitions g B)" .
  ultimately have "length (subPartitions g B) = 1" by simp
  then obtain B1 where B1: "subPartitions g B = [B1]"
    by (cases "subPartitions g B") auto
  have "set (concat (subPartitions g B)) = set B"
    using mset_concat_subPartitions[of g B] by (rule mset_eq_setD)
  with B1 p q have pq: "p \<in> set B1" "q \<in> set B1" by auto
  have "grouped g [B1]" using grouped_subPartitions[of g B] B1 by simp
  from grouped_block_indist[OF this _ pq] show ?thesis by simp
next
  case False
  with p q have "p = q" by (cases B) auto
  then show ?thesis by (simp add: indist_refl)
qed

lemma part_inv_block:
  assumes "part_inv g" "t \<in> set (allStates g)"
  shows "\<exists>i < length (blocks_of g). t \<in> set (blocks_of g ! i) \<and>
           partitionId (deref g t) = int i"
proof -
  from assms have "t \<in> set (concat (blocks_of g))" by (simp add: part_inv_def)
  then obtain B where "B \<in> set (blocks_of g)" "t \<in> set B" by auto
  then obtain i where i: "i < length (blocks_of g)" "t \<in> set (blocks_of g ! i)"
    by (auto simp: in_set_conv_nth)
  with assms(1) have "partitionId (deref g t) = int i"
    unfolding part_inv_def by blast
  with i show ?thesis by blast
qed

lemma part_inv_block_pid:
  assumes "part_inv g" "B \<in> set (blocks_of g)" "p \<in> set B" "q \<in> set B"
  shows "partitionId (deref g p) = partitionId (deref g q)"
proof -
  from assms(2) obtain i where i: "i < length (blocks_of g)" "blocks_of g ! i = B"
    by (auto simp: in_set_conv_nth)
  with assms(1,3,4) have "partitionId (deref g p) = int i" "partitionId (deref g q) = int i"
    unfolding part_inv_def by blast+
  then show ?thesis by simp
qed

lemma part_inv_same_part:
  assumes inv: "part_inv g" and p: "p \<in> set (allStates g)" and q: "q \<in> set (allStates g)"
  shows "same_part g p q \<longleftrightarrow> partitionId (deref g p) = partitionId (deref g q)"
proof
  assume "same_part g p q"
  then obtain B where "B \<in> set (blocks_of g)" "p \<in> set B" "q \<in> set B"
    by (auto simp: same_part_blocks)
  then show "partitionId (deref g p) = partitionId (deref g q)"
    by (rule part_inv_block_pid[OF inv])
next
  assume e: "partitionId (deref g p) = partitionId (deref g q)"
  from part_inv_block[OF inv p] obtain i where
    i: "i < length (blocks_of g)" "p \<in> set (blocks_of g ! i)" "partitionId (deref g p) = int i"
    by blast
  from part_inv_block[OF inv q] obtain j where
    j: "j < length (blocks_of g)" "q \<in> set (blocks_of g ! j)" "partitionId (deref g q) = int j"
    by blast
  from e i(3) j(3) have "i = j" by simp
  with i j show "same_part g p q"
    unfolding same_part_blocks by (metis nth_mem)
qed

lemma part_inv_mem:
  "part_inv g \<Longrightarrow> B \<in> set (blocks_of g) \<Longrightarrow> p \<in> set B \<Longrightarrow> p \<in> set (allStates g)"
  unfolding part_inv_def by auto

lemma stable_targets:
  assumes inv: "part_inv g" and ns: "\<not> some_split g"
    and B: "B \<in> set (blocks_of g)" and p: "p \<in> set B" and q: "q \<in> set B"
    and sy: "sy < ALPHABET_SIZE"
  shows "(nxt (deref g p) ! sy = None \<and> nxt (deref g q) ! sy = None) \<or>
         (nxt (deref g p) ! sy \<noteq> None \<and> nxt (deref g q) ! sy \<noteq> None \<and>
          same_part g (nxt (deref g p) ! sy) (nxt (deref g q) ! sy))"
proof -
  from inv have wf: "wf_graph g" by (simp add: part_inv_def)
  have pm: "p \<in> set (allStates g)" "q \<in> set (allStates g)"
    using part_inv_mem[OF inv B] p q by auto
  from stable_indist[OF ns B p q] sy have e: "p_id_next g p sy = p_id_next g q sy"
    by (auto simp: distinguishable_iff)
  have real: "\<And>s a. s \<in> set (allStates g) \<Longrightarrow> nxt (deref g s) ! sy = Some a \<Longrightarrow>
      Some a \<in> set (allStates g) \<and> p_id_next g s sy = partitionId (deref g (Some a)) \<and>
      0 \<le> partitionId (deref g (Some a))"
  proof -
    fix s a assume s: "s \<in> set (allStates g)" and a: "nxt (deref g s) ! sy = Some a"
    from wf_graph_target[OF wf s sy a] have m: "Some a \<in> set (allStates g)" .
    from part_inv_block[OF inv m] have "0 \<le> partitionId (deref g (Some a))" by auto
    with m a show "Some a \<in> set (allStates g) \<and>
      p_id_next g s sy = partitionId (deref g (Some a)) \<and> 0 \<le> partitionId (deref g (Some a))"
      by (simp add: p_id_next_def)
  qed
  show ?thesis
  proof (cases "nxt (deref g p) ! sy")
    case None
    note np = this
    show ?thesis
    proof (cases "nxt (deref g q) ! sy")
      case None
      with np show ?thesis by simp
    next
      case (Some b)
      from real[OF pm(2) Some] e np show ?thesis by (simp add: p_id_next_def)
    qed
  next
    case (Some a)
    note sp = this
    show ?thesis
    proof (cases "nxt (deref g q) ! sy")
      case None
      from real[OF pm(1) sp] e None show ?thesis by (simp add: p_id_next_def)
    next
      case (Some b)
      from real[OF pm(1) sp] real[OF pm(2) Some] e
      have "Some a \<in> set (allStates g)" "Some b \<in> set (allStates g)"
        "partitionId (deref g (Some a)) = partitionId (deref g (Some b))" by auto
      with part_inv_same_part[OF inv, of "Some a" "Some b"] sp Some show ?thesis by simp
    qed
  qed
qed

lemma refineAllPartitions_stable:
  assumes "part_inv g"
  shows "part_inv (refineAllPartitions g)" and "\<not> some_split (refineAllPartitions g)"
  using refineAllPartitions_fixpoint[OF assms, of "\<lambda>g. True"] by auto

text \<open>
  Claim C6. In the partition list that \<open>refineAllPartitions\<close> returns, any two
  states of one partition either both lack a transition on a symbol, or both have
  one and the two targets lie in one partition.
\<close>

theorem fixpoint_is_stable:
  assumes "wf_graph g"
  shows "\<forall>P \<in> set (partitions (refineAllPartitions (initialPartition g))).
     \<forall>p \<in> set (states P). \<forall>q \<in> set (states P). \<forall>sy < ALPHABET_SIZE.
       (nxt (deref (refineAllPartitions (initialPartition g)) p) ! sy = None \<and>
        nxt (deref (refineAllPartitions (initialPartition g)) q) ! sy = None) \<or>
       (\<exists>P' \<in> set (partitions (refineAllPartitions (initialPartition g))).
          nxt (deref (refineAllPartitions (initialPartition g)) p) ! sy \<in> set (states P') \<and>
          nxt (deref (refineAllPartitions (initialPartition g)) q) ! sy \<in> set (states P'))"
proof (intro ballI allI impI)
  let ?g = "refineAllPartitions (initialPartition g)"
  fix P p q sy
  assume P: "P \<in> set (partitions ?g)" and p: "p \<in> set (states P)" and q: "q \<in> set (states P)"
    and sy: "sy < ALPHABET_SIZE"
  note st = refineAllPartitions_stable[OF part_inv_initialPartition[OF assms]]
  from P have B: "states P \<in> set (blocks_of ?g)" by (simp add: blocks_of_def)
  from stable_targets[OF st B p q sy]
  show "(nxt (deref ?g p) ! sy = None \<and> nxt (deref ?g q) ! sy = None) \<or>
       (\<exists>P' \<in> set (partitions ?g).
          nxt (deref ?g p) ! sy \<in> set (states P') \<and> nxt (deref ?g q) ! sy \<in> set (states P'))"
    unfolding same_part_def by blast
qed

theorem fixpoint_is_stable_witness:
  "wf_graph pruned2 \<and>
   \<lparr>states = [Some 102, Some 103], pid = 0, label = ''{q2,q3}''\<rparr>
     \<in> set (partitions (refineAllPartitions (initialPartition pruned2))) \<and>
   (0::nat) < ALPHABET_SIZE \<and>
   nxt (deref (refineAllPartitions (initialPartition pruned2)) (Some 102)) ! 0 = Some 103 \<and>
   (\<exists>P' \<in> set (partitions (refineAllPartitions (initialPartition pruned2))).
      nxt (deref (refineAllPartitions (initialPartition pruned2)) (Some 102)) ! 0 \<in> set (states P') \<and>
      nxt (deref (refineAllPartitions (initialPartition pruned2)) (Some 103)) ! 0 \<in> set (states P'))"
proof -
  have w: "wf_graph pruned2"
    unfolding pruned2_def
    by (rule wf_graph_removeUnreachable[OF wf_graph_dfa2]) (simp add: dfa2_all)
  have e: "refineAllPartitions (initialPartition pruned2) = initial2"
    using final2_eq by (simp add: final2_def initial2_def)
  have m: "\<lparr>states = [Some 102, Some 103], pid = 0, label = ''{q2,q3}''\<rparr>
     \<in> set (partitions (refineAllPartitions (initialPartition pruned2)))"
    by (simp add: e initial2_partitions)
  have s: "Some 102 \<in> set (states \<lparr>states = [Some 102, Some 103], pid = 0, label = ''{q2,q3}''\<rparr>)"
     "Some 103 \<in> set (states \<lparr>states = [Some 102, Some 103], pid = 0, label = ''{q2,q3}''\<rparr>)"
    by simp_all
  have a: "(0::nat) < ALPHABET_SIZE" by (simp add: ALPHABET_SIZE_def)
  have n: "nxt (deref (refineAllPartitions (initialPartition pruned2)) (Some 102)) ! 0 = Some 103"
    by (simp add: e deref_def rd_def initial2_heap)
  from fixpoint_is_stable [OF w] m s a
  have "(nxt (deref (refineAllPartitions (initialPartition pruned2)) (Some 102)) ! 0 = None \<and>
        nxt (deref (refineAllPartitions (initialPartition pruned2)) (Some 103)) ! 0 = None) \<or>
       (\<exists>P' \<in> set (partitions (refineAllPartitions (initialPartition pruned2))).
          nxt (deref (refineAllPartitions (initialPartition pruned2)) (Some 102)) ! 0 \<in> set (states P') \<and>
          nxt (deref (refineAllPartitions (initialPartition pruned2)) (Some 103)) ! 0 \<in> set (states P'))"
    by blast
  with n w m a show ?thesis by auto
qed


section \<open>Equivalence of states\<close>

text \<open>
  A word is a list of symbols below \<open>ALPHABET_SIZE\<close>. \<open>run g p w\<close> follows the
  transitions of \<open>w\<close> from \<open>p\<close> and is \<open>None\<close> as soon as a transition is missing.
  The verdict of a state on a word is \<open>NoTarget\<close> when the run meets a missing
  transition, and otherwise tells whether the state reached is accepting. Two states
  are equivalent when they have the same verdict on every word: a missing
  transition is an outcome of its own, different from reaching a rejecting state.
  A state accepts a word when its verdict is \<open>Accepted\<close>.
\<close>

datatype verdict = Accepted | Rejected | NoTarget

fun run :: "globals \<Rightarrow> ptr \<Rightarrow> nat list \<Rightarrow> ptr" where
  "run g p [] = p"
| "run g p (a # w) = (case nxt (deref g p) ! a of None \<Rightarrow> None | Some t \<Rightarrow> run g (Some t) w)"

definition verdict_of :: "globals \<Rightarrow> ptr \<Rightarrow> nat list \<Rightarrow> verdict" where
  "verdict_of g p w =
     (case run g p w of
        None \<Rightarrow> NoTarget
      | Some a \<Rightarrow> if isFinal (deref g (Some a)) then Accepted else Rejected)"

definition word :: "nat list \<Rightarrow> bool" where
  "word w \<longleftrightarrow> (\<forall>a \<in> set w. a < ALPHABET_SIZE)"

definition equivalent :: "globals \<Rightarrow> ptr \<Rightarrow> ptr \<Rightarrow> bool" where
  "equivalent g p q \<longleftrightarrow> (\<forall>w. word w \<longrightarrow> verdict_of g p w = verdict_of g q w)"

definition accepts :: "globals \<Rightarrow> ptr \<Rightarrow> nat list \<Rightarrow> bool" where
  "accepts g p w \<longleftrightarrow> verdict_of g p w = Accepted"

definition same_language :: "globals \<Rightarrow> ptr \<Rightarrow> ptr \<Rightarrow> bool" where
  "same_language g p q \<longleftrightarrow> (\<forall>w. word w \<longrightarrow> accepts g p w = accepts g q w)"

definition total_graph :: "globals \<Rightarrow> bool" where
  "total_graph g \<longleftrightarrow>
     (\<forall>p \<in> set (allStates g). \<forall>sy < ALPHABET_SIZE. nxt (deref g p) ! sy \<noteq> None)"

lemma word_Nil: "word []"
  by (simp add: word_def)

lemma word_Cons: "word (a # w) \<longleftrightarrow> a < ALPHABET_SIZE \<and> word w"
  by (auto simp: word_def)

lemma verdict_Nil:
  "verdict_of g (Some a) [] = (if isFinal (deref g (Some a)) then Accepted else Rejected)"
  by (simp add: verdict_of_def)

lemma verdict_Cons:
  "verdict_of g p (a # w) =
     (case nxt (deref g p) ! a of None \<Rightarrow> NoTarget | Some t \<Rightarrow> verdict_of g (Some t) w)"
  by (simp add: verdict_of_def split: option.splits)

subsection \<open>Verdicts depend on transitions and accepting flags only\<close>

lemma verdict_cong:
  assumes "\<And>p. nxt (deref g' p) = nxt (deref g p)"
    "\<And>p. isFinal (deref g' p) = isFinal (deref g p)"
  shows "verdict_of g' p w = verdict_of g p w"
proof (induction w arbitrary: p)
  case Nil
  show ?case by (simp add: verdict_of_def assms(2) split: option.splits)
next
  case (Cons a w)
  show ?case by (simp add: verdict_Cons assms(1) Cons.IH split: option.splits)
qed

lemma equivalent_cong:
  assumes "\<And>p. nxt (deref g' p) = nxt (deref g p)"
    "\<And>p. isFinal (deref g' p) = isFinal (deref g p)"
  shows "equivalent g' p q = equivalent g p q"
  by (simp add: equivalent_def verdict_cong[of g' g, OF assms])

lemma verdict_removeUnreachable:
  assumes wf: "wf_graph g" and st: "start \<in> set (allStates g)"
  shows "p \<in> set (allStates (removeUnreachable start g)) \<Longrightarrow> word w \<Longrightarrow>
         verdict_of (removeUnreachable start g) p w = verdict_of g p w"
proof (induction w arbitrary: p)
  case Nil
  from wf_graph_allocated[OF wf_graph_removeUnreachable[OF wf st] Nil.prems(1)]
  obtain a where "p = Some a" by blast
  with removeUnreachable_nxt(2)[OF wf st Nil.prems(1)] show ?case
    by (simp add: verdict_Nil)
next
  case (Cons a w)
  from Cons.prems(2) have a: "a < ALPHABET_SIZE" and w: "word w" by (simp_all add: word_Cons)
  note n = removeUnreachable_nxt(1)[OF wf st Cons.prems(1)]
  show ?case
  proof (cases "nxt (deref g p) ! a")
    case None
    then show ?thesis by (simp add: verdict_Cons n)
  next
    case (Some t)
    from removeUnreachable_target[OF wf st Cons.prems(1) a Some]
    have "Some t \<in> set (allStates (removeUnreachable start g))" .
    from Cons.IH[OF this w] Some show ?thesis by (simp add: verdict_Cons n)
  qed
qed

lemma equivalent_removeUnreachable:
  assumes "wf_graph g" "start \<in> set (allStates g)"
    "p \<in> set (allStates (removeUnreachable start g))"
    "q \<in> set (allStates (removeUnreachable start g))"
  shows "equivalent (removeUnreachable start g) p q = equivalent g p q"
  using verdict_removeUnreachable[OF assms(1,2)] assms(3,4)
  by (simp add: equivalent_def)


subsection \<open>States of one final partition are equivalent\<close>

lemma same_part_mem:
  assumes "part_inv g" "same_part g p q"
  shows "p \<in> set (allStates g)" "q \<in> set (allStates g)"
  using assms part_inv_mem[OF assms(1)] by (auto simp: same_part_blocks)

lemma stable_verdict:
  assumes inv: "part_inv g" and ns: "\<not> some_split g" and hom: "homogeneous g"
  shows "word w \<Longrightarrow> same_part g p q \<Longrightarrow> verdict_of g p w = verdict_of g q w"
proof (induction w arbitrary: p q)
  case Nil
  from Nil.prems(2) obtain B where B: "B \<in> set (blocks_of g)" "p \<in> set B" "q \<in> set B"
    by (auto simp: same_part_blocks)
  with hom have f: "isFinal (deref g p) = isFinal (deref g q)"
    unfolding homogeneous_def by blast
  from inv have wf: "wf_graph g" by (simp add: part_inv_def)
  from same_part_mem[OF inv Nil.prems(2)] wf_graph_allocated[OF wf]
  obtain a b where "p = Some a" "q = Some b" by blast
  with f show ?case by (simp add: verdict_Nil)
next
  case (Cons a w)
  from Cons.prems(1) have a: "a < ALPHABET_SIZE" and w: "word w" by (simp_all add: word_Cons)
  from Cons.prems(2) obtain B where B: "B \<in> set (blocks_of g)" "p \<in> set B" "q \<in> set B"
    by (auto simp: same_part_blocks)
  from stable_targets[OF inv ns B a] show ?case
  proof
    assume "nxt (deref g p) ! a = None \<and> nxt (deref g q) ! a = None"
    then show ?thesis by (simp add: verdict_Cons)
  next
    assume t: "nxt (deref g p) ! a \<noteq> None \<and> nxt (deref g q) ! a \<noteq> None \<and>
          same_part g (nxt (deref g p) ! a) (nxt (deref g q) ! a)"
    then obtain t t' where tt: "nxt (deref g p) ! a = Some t" "nxt (deref g q) ! a = Some t'"
      by auto
    with t have "same_part g (Some t) (Some t')" by simp
    from Cons.IH[OF w this] tt show ?thesis by (simp add: verdict_Cons)
  qed
qed

subsection \<open>Equivalent states are never separated\<close>

definition coarse :: "globals \<Rightarrow> bool" where
  "coarse g \<longleftrightarrow>
     (\<forall>p \<in> set (allStates g). \<forall>q \<in> set (allStates g). equivalent g p q \<longrightarrow> same_part g p q)"

lemma verdict_Nil_neq: "verdict_of g (Some a) [] \<noteq> NoTarget"
  by (simp add: verdict_Nil)

lemma equivalent_step:
  assumes e: "equivalent g p q" and sy: "sy < ALPHABET_SIZE"
  shows "(nxt (deref g p) ! sy = None \<and> nxt (deref g q) ! sy = None) \<or>
         (\<exists>t t'. nxt (deref g p) ! sy = Some t \<and> nxt (deref g q) ! sy = Some t' \<and>
                 equivalent g (Some t) (Some t'))"
proof -
  have v: "\<And>w. word w \<Longrightarrow> verdict_of g p (sy # w) = verdict_of g q (sy # w)"
    using e sy by (simp add: equivalent_def word_Cons)
  show ?thesis
  proof (cases "nxt (deref g p) ! sy")
    case None
    note np = this
    show ?thesis
    proof (cases "nxt (deref g q) ! sy")
      case None
      with np show ?thesis by simp
    next
      case (Some t')
      from v[OF word_Nil] np Some verdict_Nil_neq[of g t'] show ?thesis
        by (simp add: verdict_Cons)
    qed
  next
    case (Some t)
    note sp = this
    show ?thesis
    proof (cases "nxt (deref g q) ! sy")
      case None
      from v[OF word_Nil] sp None verdict_Nil_neq[of g t] show ?thesis
        by (simp add: verdict_Cons)
    next
      case (Some t')
      from v sp Some have "equivalent g (Some t) (Some t')"
        by (simp add: equivalent_def verdict_Cons)
      with sp Some show ?thesis by simp
    qed
  qed
qed

lemma equivalent_isFinal:
  "equivalent g (Some a) (Some b) \<Longrightarrow> isFinal (deref g (Some a)) = isFinal (deref g (Some b))"
proof -
  assume "equivalent g (Some a) (Some b)"
  then have "verdict_of g (Some a) [] = verdict_of g (Some b) []"
    by (simp add: equivalent_def word_Nil)
  then show ?thesis by (simp add: verdict_Nil split: if_splits)
qed

lemma coarse_initialPartition:
  assumes wf: "wf_graph g"
  shows "coarse (initialPartition g)"
  unfolding coarse_def
proof (intro ballI impI)
  let ?g = "initialPartition g"
  fix p q assume p: "p \<in> set (allStates ?g)" and q: "q \<in> set (allStates ?g)"
    and e: "equivalent ?g p q"
  from p q have pm: "p \<in> set (allStates g)" "q \<in> set (allStates g)"
    by (simp_all add: initialPartition_frame)
  with wf_graph_allocated[OF wf] obtain a b where ab: "p = Some a" "q = Some b" by blast
  from equivalent_isFinal[of ?g a b] e ab
  have f: "isFinal (deref g p) = isFinal (deref g q)" by (simp add: initialPartition_deref)
  have b: "blocks_of ?g =
     (if finals g = [] then [] else [finals g]) @ (if nonfinals g = [] then [] else [nonfinals g])"
    by (simp add: blocks_of_def initialPartition_states)
  show "same_part ?g p q"
  proof (cases "isFinal (deref g p)")
    case True
    with f pm have "p \<in> set (finals g)" "q \<in> set (finals g)" by (simp_all add: finals_def)
    moreover then have "finals g \<in> set (blocks_of ?g)" unfolding b by auto
    ultimately show ?thesis unfolding same_part_blocks by blast
  next
    case False
    with f pm have "p \<in> set (nonfinals g)" "q \<in> set (nonfinals g)"
      by (simp_all add: nonfinals_def)
    moreover then have "nonfinals g \<in> set (blocks_of ?g)" unfolding b by auto
    ultimately show ?thesis unfolding same_part_blocks by blast
  qed
qed

lemma coarse_indist:
  assumes inv: "part_inv g" and co: "coarse g"
    and p: "p \<in> set (allStates g)" and q: "q \<in> set (allStates g)" and e: "equivalent g p q"
  shows "\<not> distinguishable g p q"
  unfolding distinguishable_iff
proof (intro notI)
  assume "\<exists>sy < ALPHABET_SIZE. p_id_next g p sy \<noteq> p_id_next g q sy"
  then obtain sy where sy: "sy < ALPHABET_SIZE" and d: "p_id_next g p sy \<noteq> p_id_next g q sy"
    by blast
  from inv have wf: "wf_graph g" by (simp add: part_inv_def)
  from equivalent_step[OF e sy] show False
  proof
    assume "nxt (deref g p) ! sy = None \<and> nxt (deref g q) ! sy = None"
    with d show False by (simp add: p_id_next_def)
  next
    assume "\<exists>t t'. nxt (deref g p) ! sy = Some t \<and> nxt (deref g q) ! sy = Some t' \<and>
                 equivalent g (Some t) (Some t')"
    then obtain t t' where t: "nxt (deref g p) ! sy = Some t" "nxt (deref g q) ! sy = Some t'"
      "equivalent g (Some t) (Some t')" by blast
    have m: "Some t \<in> set (allStates g)" "Some t' \<in> set (allStates g)"
      using wf_graph_target[OF wf p sy t(1)] wf_graph_target[OF wf q sy t(2)] by auto
    with co t(3) have "same_part g (Some t) (Some t')" unfolding coarse_def by blast
    with part_inv_same_part[OF inv m]
    have "partitionId (deref g (Some t)) = partitionId (deref g (Some t'))" by simp
    with d t show False by (simp add: p_id_next_def)
  qed
qed

lemma coarse_relabelled:
  assumes inv: "part_inv g" and co: "coarse g"
  shows "coarse (relabelled g)"
  unfolding coarse_def
proof (intro ballI impI)
  let ?g = "relabelled g"
  fix p q assume p: "p \<in> set (allStates ?g)" and q: "q \<in> set (allStates ?g)"
    and e: "equivalent ?g p q"
  from p q have pm: "p \<in> set (allStates g)" "q \<in> set (allStates g)"
    by (simp_all add: relabelled_frame)
  have e': "equivalent g p q"
    using e equivalent_cong[of ?g g p q] by (simp add: relabelled_frame)
  from co pm e' have "same_part g p q" unfolding coarse_def by blast
  then obtain B where B: "B \<in> set (blocks_of g)" "p \<in> set B" "q \<in> set B"
    by (auto simp: same_part_blocks)
  have "set (concat (subPartitions g B)) = set B"
    using mset_concat_subPartitions[of g B] by (rule mset_eq_setD)
  with B have "p \<in> set (concat (subPartitions g B))" "q \<in> set (concat (subPartitions g B))"
    by simp_all
  then obtain B1 B2 where B12: "B1 \<in> set (subPartitions g B)" "p \<in> set B1"
    "B2 \<in> set (subPartitions g B)" "q \<in> set B2"
    unfolding set_concat by blast
  from grouped_same_block[OF grouped_subPartitions B12(1,3,2,4) coarse_indist[OF inv co pm e']]
  have "B1 = B2" .
  moreover from B(1) B12(1) have "B1 \<in> set (new_blocks g)"
    by (auto simp: new_blocks_def)
  ultimately show "same_part ?g p q"
    using B12 unfolding same_part_blocks blocks_of_relabelled by blast
qed


subsection \<open>The final partitions are the equivalence classes\<close>

definition same_graph :: "globals \<Rightarrow> globals \<Rightarrow> bool" where
  "same_graph g g' \<longleftrightarrow>
     allStates g' = allStates g \<and>
     (\<forall>p. nxt (deref g' p) = nxt (deref g p)) \<and>
     (\<forall>p. isFinal (deref g' p) = isFinal (deref g p))"

lemma same_graph_refl: "same_graph g g"
  by (simp add: same_graph_def)

lemma same_graph_refine_pass: "same_graph g g' \<Longrightarrow> same_graph g (fst (refine_pass g'))"
  by (simp add: same_graph_def refine_pass_frame)

lemma coarse_refine_pass:
  assumes "part_inv g" "coarse g"
  shows "coarse (fst (refine_pass g))"
  using assms
  by (cases "some_split g") (simp_all add: refine_pass_split refine_pass_stable coarse_relabelled)

lemma refineAllPartitions_classes:
  assumes inv: "part_inv g" and hom: "homogeneous g" and co: "coarse g"
  shows "part_inv (refineAllPartitions g) \<and> \<not> some_split (refineAllPartitions g) \<and>
         homogeneous (refineAllPartitions g) \<and> coarse (refineAllPartitions g) \<and>
         same_graph g (refineAllPartitions g)"
proof -
  have "part_inv (refineAllPartitions g) \<and>
        (homogeneous (refineAllPartitions g) \<and> coarse (refineAllPartitions g) \<and>
         same_graph g (refineAllPartitions g)) \<and>
        \<not> some_split (refineAllPartitions g)"
  proof (rule refineAllPartitions_fixpoint[OF inv,
        where I = "\<lambda>g'. homogeneous g' \<and> coarse g' \<and> same_graph g g'"])
    show "homogeneous g \<and> coarse g \<and> same_graph g g"
      using hom co by (simp add: same_graph_refl)
  next
    fix g' assume i: "part_inv g'" and I: "homogeneous g' \<and> coarse g' \<and> same_graph g g'"
    then show "homogeneous (fst (refine_pass g')) \<and> coarse (fst (refine_pass g')) \<and>
         same_graph g (fst (refine_pass g'))"
      by (simp add: homogeneous_refine_pass coarse_refine_pass same_graph_refine_pass)
  qed
  then show ?thesis by blast
qed

lemma classes_iff:
  assumes inv: "part_inv g" and ns: "\<not> some_split g" and hom: "homogeneous g" and co: "coarse g"
    and p: "p \<in> set (allStates g)" and q: "q \<in> set (allStates g)"
  shows "same_part g p q \<longleftrightarrow> equivalent g p q"
proof
  assume "same_part g p q"
  then show "equivalent g p q"
    using stable_verdict[OF inv ns hom] by (simp add: equivalent_def)
next
  assume "equivalent g p q"
  with co p q show "same_part g p q" unfolding coarse_def by blast
qed

lemma reach_mem:
  assumes wf: "wf_graph g" and st: "start \<in> set (allStates g)"
  shows "reach g start p \<Longrightarrow> p \<in> set (allStates g)"
proof (induction rule: reach.induct)
  case reach_start
  show ?case by (rule st)
next
  case (reach_step p sy a)
  show ?case by (rule wf_graph_target[OF wf reach_step.IH reach_step.hyps(2,3)])
qed

lemma pipeline_classes:
  assumes wf: "wf_graph g0" and st: "start \<in> set (allStates g0)"
    and p: "reach g0 start p" and q: "reach g0 start q"
  shows "same_part (pipeline start g0) p q \<longleftrightarrow> equivalent g0 p q"
proof -
  let ?g1 = "removeUnreachable start g0"
  let ?g2 = "initialPartition ?g1"
  let ?g = "refineAllPartitions ?g2"
  have wf1: "wf_graph ?g1" by (rule wf_graph_removeUnreachable[OF wf st])
  have pm: "p \<in> set (allStates ?g1)" "q \<in> set (allStates ?g1)"
    using p q reach_mem[OF wf st] by (simp_all add: removeUnreachable_allStates[OF wf st])
  from refineAllPartitions_classes[OF part_inv_initialPartition[OF wf1]
      homogeneous_initialPartition coarse_initialPartition[OF wf1]]
  have c: "part_inv ?g" "\<not> some_split ?g" "homogeneous ?g" "coarse ?g" "same_graph ?g2 ?g"
    by blast+
  from c(5) have a: "allStates ?g = allStates ?g1"
    by (simp add: same_graph_def initialPartition_frame)
  from c(5) have e: "equivalent ?g p q = equivalent ?g1 p q"
    using equivalent_cong[of ?g ?g1 p q]
    by (simp add: same_graph_def initialPartition_deref)
  from classes_iff[OF c(1-4), of p q] pm a
  have "same_part ?g p q \<longleftrightarrow> equivalent ?g p q" by simp
  also have "\<dots> \<longleftrightarrow> equivalent ?g1 p q" by (rule e)
  also have "\<dots> \<longleftrightarrow> equivalent g0 p q"
    by (rule equivalent_removeUnreachable[OF wf st pm])
  finally show ?thesis by (simp add: pipeline_def)
qed

lemma total_verdict:
  assumes wf: "wf_graph g" and tot: "total_graph g"
  shows "p \<in> set (allStates g) \<Longrightarrow> word w \<Longrightarrow> verdict_of g p w \<noteq> NoTarget"
proof (induction w arbitrary: p)
  case Nil
  from wf_graph_allocated[OF wf Nil.prems(1)] obtain a where "p = Some a" by blast
  then show ?case by (simp add: verdict_Nil)
next
  case (Cons a w)
  from Cons.prems(2) have a: "a < ALPHABET_SIZE" and w: "word w" by (simp_all add: word_Cons)
  from tot Cons.prems(1) a obtain t where t: "nxt (deref g p) ! a = Some t"
    unfolding total_graph_def by blast
  from wf_graph_target[OF wf Cons.prems(1) a t] have "Some t \<in> set (allStates g)" .
  from Cons.IH[OF this w] t show ?case by (simp add: verdict_Cons)
qed

lemma total_equivalent:
  assumes wf: "wf_graph g" and tot: "total_graph g"
    and p: "p \<in> set (allStates g)" and q: "q \<in> set (allStates g)"
  shows "equivalent g p q \<longleftrightarrow> same_language g p q"
proof
  assume "equivalent g p q"
  then show "same_language g p q" by (simp add: equivalent_def same_language_def accepts_def)
next
  assume s: "same_language g p q"
  show "equivalent g p q"
    unfolding equivalent_def
  proof (intro allI impI)
    fix w assume w: "word w"
    from s w have "(verdict_of g p w = Accepted) = (verdict_of g q w = Accepted)"
      by (simp add: same_language_def accepts_def)
    with total_verdict[OF wf tot p w] total_verdict[OF wf tot q w]
    show "verdict_of g p w = verdict_of g q w"
      by (cases "verdict_of g p w"; cases "verdict_of g q w") simp_all
  qed
qed

text \<open>
  Claim C1, as amended. For a well-formed graph whose start state is in the state
  list, two reachable states are in one partition of the result of the pipeline
  exactly when they have the same verdict on every word, where running into a
  missing transition is a verdict of its own (no dead state is assumed). When no
  state lacks a transition, this is the same as accepting exactly the same words.
\<close>

theorem final_partitions_are_equivalence_classes:
  assumes "wf_graph g0" and "start \<in> set (allStates g0)"
    and "reach g0 start p" and "reach g0 start q"
  shows "(same_part (pipeline start g0) p q \<longleftrightarrow> equivalent g0 p q) \<and>
         (total_graph g0 \<longrightarrow>
            (same_part (pipeline start g0) p q \<longleftrightarrow> same_language g0 p q))"
proof -
  have pm: "p \<in> set (allStates g0)" "q \<in> set (allStates g0)"
    using assms reach_mem by blast+
  from pipeline_classes[OF assms] total_equivalent[OF assms(1) _ pm]
  show ?thesis by blast
qed


lemma total_graph_dfa2: "total_graph dfa2"
  by (simp add: total_graph_def all_less_ALPHABET_SIZE dfa2_all dfa2_heap deref_def rd_def)

lemma pipeline_dfa2: "pipeline (Some 101) dfa2 = initial2"
  using final2_eq by (simp add: pipeline_def final2_def initial2_def pruned2_def)

theorem final_partitions_are_equivalence_classes_witness:
  "wf_graph dfa2 \<and> Some 101 \<in> set (allStates dfa2) \<and>
   reach dfa2 (Some 101) (Some 102) \<and> reach dfa2 (Some 101) (Some 103) \<and>
   total_graph dfa2 \<and>
   same_part (pipeline (Some 101) dfa2) (Some 102) (Some 103) \<and>
   equivalent dfa2 (Some 102) (Some 103) \<and> same_language dfa2 (Some 102) (Some 103)"
proof -
  have s: "Some 101 \<in> set (allStates dfa2)" by (simp add: dfa2_all)
  have r0: "reach dfa2 (Some 101) (Some 101)" by (rule reach_start)
  have r2: "reach dfa2 (Some 101) (Some 102)"
    by (rule reach_step[OF r0, of 0]) (simp_all add: ALPHABET_SIZE_def deref_def rd_def dfa2_heap)
  have r3: "reach dfa2 (Some 101) (Some 103)"
    by (rule reach_step[OF r0, of "Suc 0"])
       (simp_all add: ALPHABET_SIZE_def deref_def rd_def dfa2_heap)
  have p: "same_part (pipeline (Some 101) dfa2) (Some 102) (Some 103)"
    by (simp add: pipeline_dfa2 same_part_def initial2_partitions)
  from final_partitions_are_equivalence_classes [OF wf_graph_dfa2 s r2 r3]
    wf_graph_dfa2 s r2 r3 total_graph_dfa2 p
  show ?thesis by blast
qed

section \<open>A DFA that is already minimal\<close>

text \<open>
  A graph is minimal for a start state when every listed state is reachable and no
  two different listed states are equivalent. States told apart by a word that one
  accepts and the other does not are not equivalent, so a graph whose states have
  pairwise different accepted languages is minimal in this sense.
\<close>

definition minimal_dfa :: "globals \<Rightarrow> ptr \<Rightarrow> bool" where
  "minimal_dfa g start \<longleftrightarrow>
     (\<forall>p \<in> set (allStates g). reach g start p) \<and>
     (\<forall>p \<in> set (allStates g). \<forall>q \<in> set (allStates g). p \<noteq> q \<longrightarrow> \<not> equivalent g p q)"

lemma equivalent_same_language: "equivalent g p q \<Longrightarrow> same_language g p q"
  by (simp add: equivalent_def same_language_def accepts_def)

lemma minimal_dfa_language:
  assumes "\<forall>p \<in> set (allStates g). reach g start p"
    "\<forall>p \<in> set (allStates g). \<forall>q \<in> set (allStates g). p \<noteq> q \<longrightarrow> \<not> same_language g p q"
  shows "minimal_dfa g start"
  using assms equivalent_same_language unfolding minimal_dfa_def by blast

lemma singleton_block:
  assumes "distinct B" "B \<noteq> []" "\<And>p q. p \<in> set B \<Longrightarrow> q \<in> set B \<Longrightarrow> p = q"
  shows "length B = 1"
proof (cases B)
  case Nil
  with assms(2) show ?thesis by simp
next
  case (Cons x xs)
  show ?thesis
  proof (cases xs)
    case Nil
    with Cons show ?thesis by simp
  next
    case (Cons y ys)
    with \<open>B = x # xs\<close> assms(3)[of x y] have "x = y" by simp
    with Cons \<open>B = x # xs\<close> assms(1) show ?thesis by simp
  qed
qed

lemma length_concat_singletons:
  "(\<And>B. B \<in> set Bs \<Longrightarrow> length B = 1) \<Longrightarrow> length (concat Bs) = length Bs"
  by (induction Bs) simp_all

lemma distinct_concat_block: "distinct (concat Bs) \<Longrightarrow> B \<in> set Bs \<Longrightarrow> distinct B"
  by (induction Bs) auto

lemma pipeline_inv:
  assumes wf: "wf_graph g0" and st: "start \<in> set (allStates g0)"
  shows "part_inv (pipeline start g0)"
    and "allStates (pipeline start g0) = filter (reach g0 start) (allStates g0)"
proof -
  let ?g1 = "removeUnreachable start g0"
  have wf1: "wf_graph ?g1" by (rule wf_graph_removeUnreachable[OF wf st])
  from refineAllPartitions_classes[OF part_inv_initialPartition[OF wf1]
      homogeneous_initialPartition coarse_initialPartition[OF wf1]]
  have c: "part_inv (refineAllPartitions (initialPartition ?g1))"
    "same_graph (initialPartition ?g1) (refineAllPartitions (initialPartition ?g1))"
    by blast+
  from c(1) show "part_inv (pipeline start g0)" by (simp add: pipeline_def)
  from c(2) show "allStates (pipeline start g0) = filter (reach g0 start) (allStates g0)"
    by (simp add: pipeline_def same_graph_def initialPartition_frame
        removeUnreachable_allStates[OF wf st])
qed

text \<open>
  Claim C9. On a well-formed graph that is already minimal, the pipeline removes
  no state and merges none: every final partition holds exactly one state, so the
  number of partitions, and of rows of the table, is the number of states of the
  input.
\<close>

theorem minimal_dfa_unchanged:
  assumes "wf_graph g" and "start \<in> set (allStates g)" and "minimal_dfa g start"
  shows "allStates (pipeline start g) = allStates g \<and>
         (\<forall>P \<in> set (partitions (pipeline start g)). count P = 1) \<and>
         nPartitions (pipeline start g) = nStates g \<and>
         length (printMinimizedDFA (pipeline start g)) = nStates g"
proof -
  let ?g = "pipeline start g"
  note inv = pipeline_inv[OF assms(1,2)]
  have a: "allStates ?g = allStates g"
    using assms(3) by (simp add: inv(2) minimal_dfa_def)
  have one: "\<And>B. B \<in> set (blocks_of ?g) \<Longrightarrow> length B = 1"
  proof -
    fix B assume B: "B \<in> set (blocks_of ?g)"
    from inv(1) B have d: "distinct B" and ne: "B \<noteq> []"
      unfolding part_inv_def using distinct_concat_block by blast+
    show "length B = 1"
    proof (rule singleton_block[OF d ne])
      fix p q assume p: "p \<in> set B" and q: "q \<in> set B"
      from part_inv_mem[OF inv(1) B] p q a
      have pm: "p \<in> set (allStates g)" "q \<in> set (allStates g)" by auto
      with assms(3) have r: "reach g start p" "reach g start q"
        by (simp_all add: minimal_dfa_def)
      from B p q have "same_part ?g p q" unfolding same_part_blocks by blast
      with pipeline_classes[OF assms(1,2) r] have "equivalent g p q" by simp
      with assms(3) pm show "p = q" unfolding minimal_dfa_def by blast
    qed
  qed
  have c: "\<forall>P \<in> set (partitions ?g). count P = 1"
    using one by (simp add: blocks_of_def count_def)
  have "nPartitions ?g = length (concat (blocks_of ?g))"
    using length_concat_singletons[of "blocks_of ?g"] one
    by (simp add: nPartitions_blocks_of)
  also have "\<dots> = nStates ?g" by (rule part_inv_count[OF inv(1)])
  finally have n: "nPartitions ?g = nStates g" by (simp add: nStates_def a)
  have "filter (\<lambda>P. count P \<noteq> 0) (partitions ?g) = partitions ?g"
    using c by (simp add: filter_id_conv)
  then have "length (printMinimizedDFA ?g) = nPartitions ?g"
    by (simp add: printMinimizedDFA_def nPartitions_def)
  with a c n show ?thesis by simp
qed


text \<open>
  Scenario B of the specification: \<open>q_a\<close> (not accepting) and \<open>q_b\<close> (accepting),
  both going to \<open>q_b\<close> on symbol 0 and to \<open>q_a\<close> on symbol 1, at the addresses 201
  and 202, with start state \<open>q_a\<close>.
\<close>

definition dfaB :: globals where
  "dfaB =
     \<lparr>heap = [201 \<mapsto> \<lparr>name = ''q_a'', isFinal = False, nxt = [Some 202, Some 201],
                        ident = 0, partitionId = - 1\<rparr>,
              202 \<mapsto> \<lparr>name = ''q_b'', isFinal = True, nxt = [Some 202, Some 201],
                        ident = 1, partitionId = - 1\<rparr>],
      allStates = [Some 201, Some 202], reachable = (\<lambda>_. False), partitions = [],
      stderr = []\<rparr>"

lemma wf_graph_dfaB: "wf_graph dfaB"
  by (simp add: wf_graph_def all_less_ALPHABET_SIZE dfaB_def deref_def rd_def
      nStates_def MAX_STATES_def)

lemma minimal_dfaB: "minimal_dfa dfaB (Some 201)"
proof -
  have r0: "reach dfaB (Some 201) (Some 201)" by (rule reach_start)
  have r1: "reach dfaB (Some 201) (Some 202)"
    by (rule reach_step[OF r0, of 0]) (simp_all add: ALPHABET_SIZE_def deref_def rd_def dfaB_def)
  have n: "\<not> equivalent dfaB (Some 201) (Some 202)"
    using equivalent_isFinal[of dfaB 201 202] by (auto simp: deref_def rd_def dfaB_def)
  have n': "\<not> equivalent dfaB (Some 202) (Some 201)"
    using equivalent_isFinal[of dfaB 202 201] by (auto simp: deref_def rd_def dfaB_def)
  have a: "allStates dfaB = [Some 201, Some 202]" by (simp add: dfaB_def)
  show ?thesis
    unfolding minimal_dfa_def a using r0 r1 n n' by simp
qed

theorem minimal_dfa_unchanged_witness:
  "wf_graph dfaB \<and> Some 201 \<in> set (allStates dfaB) \<and> minimal_dfa dfaB (Some 201) \<and>
   nStates dfaB = 2 \<and>
   allStates (pipeline (Some 201) dfaB) = [Some 201, Some 202] \<and>
   nPartitions (pipeline (Some 201) dfaB) = 2 \<and>
   length (printMinimizedDFA (pipeline (Some 201) dfaB)) = 2"
proof -
  have s: "Some 201 \<in> set (allStates dfaB)" by (simp add: dfaB_def)
  have n: "nStates dfaB = 2" by (simp add: nStates_def dfaB_def)
  have a: "allStates dfaB = [Some 201, Some 202]" by (simp add: dfaB_def)
  from minimal_dfa_unchanged [OF wf_graph_dfaB s minimal_dfaB] wf_graph_dfaB s minimal_dfaB n a
  show ?thesis by simp
qed


section \<open>A partial DFA with a dead state\<close>

text \<open>
  Three states, none accepting: \<open>q_s\<close> at address 301 goes to \<open>q_a\<close> on symbol 0 and
  to \<open>q_b\<close> on symbol 1; \<open>q_a\<close> at 302 has no transition; \<open>q_b\<close> at 303 goes to itself
  on both symbols. The start state is \<open>q_s\<close>.
\<close>

definition dfaP :: globals where
  "dfaP =
     \<lparr>heap = [301 \<mapsto> \<lparr>name = ''q_s'', isFinal = False, nxt = [Some 302, Some 303],
                        ident = 0, partitionId = - 1\<rparr>,
              302 \<mapsto> \<lparr>name = ''q_a'', isFinal = False, nxt = [None, None],
                        ident = 1, partitionId = - 1\<rparr>,
              303 \<mapsto> \<lparr>name = ''q_b'', isFinal = False, nxt = [Some 303, Some 303],
                        ident = 2, partitionId = - 1\<rparr>],
      allStates = [Some 301, Some 302, Some 303], reachable = (\<lambda>_. False), partitions = [],
      stderr = []\<rparr>"

definition prunedP :: globals where "prunedP = removeUnreachable (Some 301) dfaP"
definition initialP :: globals where "initialP = initialPartition prunedP"
definition pass1P :: globals where "pass1P = fst (refine_pass initialP)"
definition pass2P :: globals where "pass2P = fst (refine_pass pass1P)"

lemma dfaP_all: "allStates dfaP = [Some 301, Some 302, Some 303]"
  by (simp add: dfaP_def)

lemma dfaP_heap:
  "heap dfaP 301 = Some \<lparr>name = ''q_s'', isFinal = False, nxt = [Some 302, Some 303], ident = 0, partitionId = - 1\<rparr>"
  "heap dfaP 302 = Some \<lparr>name = ''q_a'', isFinal = False, nxt = [None, None], ident = 1, partitionId = - 1\<rparr>"
  "heap dfaP 303 = Some \<lparr>name = ''q_b'', isFinal = False, nxt = [Some 303, Some 303], ident = 2, partitionId = - 1\<rparr>"
  by (simp_all add: dfaP_def)

lemma dfaP_idx:
  "getStateIndexByPtr dfaP (Some 301) = Some 0"
  "getStateIndexByPtr dfaP (Some 302) = Some 1"
  "getStateIndexByPtr dfaP (Some 303) = Some 2"
  by (simp_all add: getStateIndexByPtr_def dfaP_all)

lemma dfaP_mark:
  "reachable (markReachable (Some 301) dfaP) 0"
  "reachable (markReachable (Some 301) dfaP) (Suc 0)"
  "reachable (markReachable (Some 301) dfaP) (Suc (Suc 0))"
  by (simp_all add: markReachable_def mark_loop_if mark_pass_def mark_state_def mark_target_def
      dfaP_idx dfaP_all dfaP_heap deref_def rd_def nStates_def ALPHABET_SIZE_def numeral_2_eq_2
      Let_def)

lemma markP_idx:
  "getStateIndexByPtr (markReachable (Some 301) dfaP) (Some 301) = Some 0"
  "getStateIndexByPtr (markReachable (Some 301) dfaP) (Some 302) = Some (Suc 0)"
  "getStateIndexByPtr (markReachable (Some 301) dfaP) (Some 303) = Some (Suc (Suc 0))"
  by (simp_all add: getStateIndexByPtr_def markReachable_frame dfaP_all)

lemmas pruneP_defs = prunedP_def removeUnreachable_def Let_def clear_state_def clear_target_def
  compact_step_def wr_def rd_def dfaP_mark markReachable_frame markP_idx dfaP_all dfaP_heap
  nStates_def ALPHABET_SIZE_def numeral_2_eq_2

lemma prunedP_all: "allStates prunedP = [Some 301, Some 302, Some 303]"
  by (simp add: pruneP_defs)

lemma prunedP_heap:
  "heap prunedP 301 = Some \<lparr>name = ''q_s'', isFinal = False, nxt = [Some 302, Some 303], ident = 0, partitionId = - 1\<rparr>"
  "heap prunedP 302 = Some \<lparr>name = ''q_a'', isFinal = False, nxt = [None, None], ident = 1, partitionId = - 1\<rparr>"
  "heap prunedP 303 = Some \<lparr>name = ''q_b'', isFinal = False, nxt = [Some 303, Some 303], ident = 2, partitionId = - 1\<rparr>"
  by (simp_all add: pruneP_defs)

lemmas initP_defs = initialP_def initialPartition_def classify_def add_partition_def set_pids_def
  mk_label_def wr_def rd_def nPartitions_def prunedP_all prunedP_heap Let_def

lemma initialP_partitions:
  "partitions initialP =
     [\<lparr>states = [Some 301, Some 302, Some 303], pid = 0, label = ''{q_s,q_a,q_b}''\<rparr>]"
  by (simp add: initP_defs)

lemma initialP_heap:
  "heap initialP 301 = Some \<lparr>name = ''q_s'', isFinal = False, nxt = [Some 302, Some 303], ident = 0, partitionId = 0\<rparr>"
  "heap initialP 302 = Some \<lparr>name = ''q_a'', isFinal = False, nxt = [None, None], ident = 1, partitionId = 0\<rparr>"
  "heap initialP 303 = Some \<lparr>name = ''q_b'', isFinal = False, nxt = [Some 303, Some 303], ident = 2, partitionId = 0\<rparr>"
  by (simp_all add: initP_defs)

lemmas passP_defs = refine_pass_def refine_partition_def push_def count_def
  distinguishable_def p_id_next_def deref_def rd_def wr_def set_pids_def mk_label_def
  nPartitions_def MAX_STATES_def ALPHABET_SIZE_def numeral_2_eq_2 Let_def

lemma pass1P_changed: "snd (refine_pass initialP)"
  by (simp add: passP_defs initialP_partitions initialP_heap)

lemma pass1P_partitions:
  "partitions pass1P =
     [\<lparr>states = [Some 301, Some 303], pid = 0, label = ''{q_s,q_b}''\<rparr>,
      \<lparr>states = [Some 302], pid = 1, label = ''{q_a}''\<rparr>]"
  by (simp add: pass1P_def passP_defs initialP_partitions initialP_heap)

lemma pass1P_heap:
  "heap pass1P 301 = Some \<lparr>name = ''q_s'', isFinal = False, nxt = [Some 302, Some 303], ident = 0, partitionId = 0\<rparr>"
  "heap pass1P 302 = Some \<lparr>name = ''q_a'', isFinal = False, nxt = [None, None], ident = 1, partitionId = 1\<rparr>"
  "heap pass1P 303 = Some \<lparr>name = ''q_b'', isFinal = False, nxt = [Some 303, Some 303], ident = 2, partitionId = 0\<rparr>"
  by (simp_all add: pass1P_def passP_defs initialP_partitions initialP_heap)

lemma pass2P_changed: "snd (refine_pass pass1P)"
  by (simp add: passP_defs pass1P_partitions pass1P_heap)

lemma pass2P_partitions:
  "partitions pass2P =
     [\<lparr>states = [Some 301], pid = 0, label = ''{q_s}''\<rparr>,
      \<lparr>states = [Some 303], pid = 1, label = ''{q_b}''\<rparr>,
      \<lparr>states = [Some 302], pid = 2, label = ''{q_a}''\<rparr>]"
  by (simp add: pass2P_def passP_defs pass1P_partitions pass1P_heap)

lemma pass3P: "refine_pass pass2P = (pass2P, False)"
  by (simp add: passP_defs pass2P_partitions)

lemma pipeline_dfaP: "pipeline (Some 301) dfaP = pass2P"
proof -
  have "refineAllPartitions initialP = refineAllPartitions pass1P"
    using pass1P_changed by (subst refineAllPartitions_if) (simp add: pass1P_def)
  also have "\<dots> = refineAllPartitions pass2P"
    using pass2P_changed by (subst refineAllPartitions_if) (simp add: pass2P_def)
  also have "\<dots> = pass2P"
    by (subst refineAllPartitions_if) (simp add: pass3P)
  finally show ?thesis by (simp add: pipeline_def initialP_def prunedP_def)
qed


lemma wf_graph_dfaP: "wf_graph dfaP"
  by (simp add: wf_graph_def all_less_ALPHABET_SIZE dfaP_all dfaP_heap deref_def rd_def
      nStates_def MAX_STATES_def)

lemma symbol_cases: "a < ALPHABET_SIZE \<Longrightarrow> a = 0 \<or> a = Suc 0"
  by (auto simp: ALPHABET_SIZE_def)

lemma verdict_q_b: "word w \<Longrightarrow> verdict_of dfaP (Some 303) w = Rejected"
proof (induction w)
  case Nil
  show ?case by (simp add: verdict_Nil deref_def rd_def dfaP_heap)
next
  case (Cons a w)
  from Cons.prems have a: "a = 0 \<or> a = Suc 0" and w: "word w"
    using symbol_cases by (auto simp: word_Cons)
  from a have "nxt (deref dfaP (Some 303)) ! a = Some 303"
    by (auto simp: deref_def rd_def dfaP_heap)
  with Cons.IH[OF w] show ?case by (simp add: verdict_Cons)
qed

lemma verdict_q_a: "word w \<Longrightarrow> verdict_of dfaP (Some 302) w \<noteq> Accepted"
proof (cases w)
  case Nil
  then show ?thesis by (simp add: verdict_Nil deref_def rd_def dfaP_heap)
next
  case (Cons a w')
  assume "word w"
  with Cons have "a = 0 \<or> a = Suc 0" using symbol_cases by (auto simp: word_Cons)
  then have "nxt (deref dfaP (Some 302)) ! a = None"
    by (auto simp: deref_def rd_def dfaP_heap)
  with Cons show ?thesis by (simp add: verdict_Cons)
qed

lemma same_language_q_a_q_b: "same_language dfaP (Some 302) (Some 303)"
  using verdict_q_a verdict_q_b by (simp add: same_language_def accepts_def)

text \<open>
  Claim C1 as stated. In the partial DFA above no state is accepting, so \<open>q_a\<close> and
  \<open>q_b\<close> accept exactly the same words, namely none; both are reachable from the
  start state; and the pipeline puts them into different partitions, because \<open>q_a\<close>
  has no transitions and \<open>q_b\<close> has.
\<close>

theorem same_language_split_counterexample:
  "wf_graph dfaP \<and> Some 301 \<in> set (allStates dfaP) \<and>
   reach dfaP (Some 301) (Some 302) \<and> reach dfaP (Some 301) (Some 303) \<and>
   same_language dfaP (Some 302) (Some 303) \<and>
   partitions (pipeline (Some 301) dfaP) =
     [\<lparr>states = [Some 301], pid = 0, label = ''{q_s}''\<rparr>,
      \<lparr>states = [Some 303], pid = 1, label = ''{q_b}''\<rparr>,
      \<lparr>states = [Some 302], pid = 2, label = ''{q_a}''\<rparr>] \<and>
   \<not> same_part (pipeline (Some 301) dfaP) (Some 302) (Some 303)"
proof -
  have r0: "reach dfaP (Some 301) (Some 301)" by (rule reach_start)
  have r2: "reach dfaP (Some 301) (Some 302)"
    by (rule reach_step[OF r0, of 0]) (simp_all add: ALPHABET_SIZE_def deref_def rd_def dfaP_heap)
  have r3: "reach dfaP (Some 301) (Some 303)"
    by (rule reach_step[OF r0, of "Suc 0"])
       (simp_all add: ALPHABET_SIZE_def deref_def rd_def dfaP_heap)
  have n: "\<not> same_part (pipeline (Some 301) dfaP) (Some 302) (Some 303)"
    by (simp add: pipeline_dfaP same_part_def pass2P_partitions)
  from wf_graph_dfaP r2 r3 same_language_q_a_q_b n show ?thesis
    by (simp add: pipeline_dfaP pass2P_partitions dfaP_all)
qed


end
